theory Spec2Isabelle
  imports Main "HOL-Library.AList"
begin

section \<open>JavaScript strings, numbers and Buffers\<close>

text \<open>
  The server is one Node.js module, \<^verbatim>\<open>server.js\<close>. The strings it is given are modelled as
  HOL strings (lists of 8-bit characters): every id is \<^verbatim>\<open>mov\<close> followed by decimal digits and
  every token is base64 text followed by characters of \<^verbatim>\<open>0-9a-z\<close>, so all of them are ASCII.
  A string that the server decodes from bytes may hold any Unicode character and is modelled as
  the list of its code points, which are integers.
  Numbers that the code only counts with are natural numbers; times are integers, the
  milliseconds that \<^verbatim>\<open>Date\<close> counts.
\<close>

text \<open>\<^verbatim>\<open>s.slice(0, -n)\<close>: all but the last \<open>n\<close> characters, the empty string when \<open>s\<close> is
  not longer than \<open>n\<close>.\<close>

definition slice_0_neg :: "nat \<Rightarrow> string \<Rightarrow> string" where
  "slice_0_neg n s = take (length s - n) s"

text \<open>\<^verbatim>\<open>s.substring(a, b)\<close> for \<open>a \<le> b\<close>: the characters at the indices \<open>a\<close> up to \<open>b - 1\<close>
  that exist.\<close>

definition substring :: "nat \<Rightarrow> nat \<Rightarrow> string \<Rightarrow> string" where
  "substring a b s = take (b - a) (drop a s)"

text \<open>\<^verbatim>\<open>s.startsWith(p)\<close>.\<close>

definition startsWith :: "string \<Rightarrow> string \<Rightarrow> bool" where
  "startsWith s p = (take (length p) s = p)"

text \<open>\<^verbatim>\<open>String(n)\<close> for a non-negative integer: its decimal digits.\<close>

definition digit_char :: "nat \<Rightarrow> char" where
  "digit_char d = char_of (48 + d)"

fun String_of_nat :: "nat \<Rightarrow> string" where
  "String_of_nat n =
     (if n < 10 then [digit_char n] else String_of_nat (n div 10) @ [digit_char (n mod 10)])"

text \<open>\<^verbatim>\<open>s.padStart(n, c)\<close> with a one-character pad.\<close>

definition padStart :: "nat \<Rightarrow> char \<Rightarrow> string \<Rightarrow> string" where
  "padStart n c s = replicate (n - length s) c @ s"

text \<open>A string is falsy when it is \<^verbatim>\<open>null\<close> (or \<^verbatim>\<open>undefined\<close>) or empty.\<close>

definition truthy :: "string option \<Rightarrow> bool" where
  "truthy v = (case v of None \<Rightarrow> False | Some s \<Rightarrow> s \<noteq> [])"

subsection \<open>Buffers and base64\<close>

text \<open>
  \<^verbatim>\<open>Buffer.from(s)\<close> holds the UTF-8 bytes of \<open>s\<close>: one byte for a character below 128, two
  bytes for the other 8-bit characters.
\<close>

definition utf8_of_char :: "char \<Rightarrow> nat list" where
  "utf8_of_char c =
     (let n = (of_char c :: nat) in if n < 128 then [n] else [192 + n div 64, 128 + n mod 64])"

definition Buffer_from :: "string \<Rightarrow> nat list" where
  "Buffer_from s = concat (map utf8_of_char s)"

text \<open>The digit with value \<open>n\<close> of the base64 alphabet: \<^verbatim>\<open>A-Z\<close>, \<^verbatim>\<open>a-z\<close>, \<^verbatim>\<open>0-9\<close>, \<^verbatim>\<open>+\<close>
  and \<^verbatim>\<open>/\<close>.\<close>

definition b64_digit :: "nat \<Rightarrow> char" where
  "b64_digit n =
     (if n < 26 then char_of (65 + n)
      else if n < 52 then char_of (71 + n)
      else if n < 62 then char_of (n - 4)
      else if n = 62 then CHR ''+''
      else CHR ''/'')"

text \<open>\<^verbatim>\<open>buf.toString('base64')\<close>: three bytes give four digits, the last group is padded
  with \<^verbatim>\<open>=\<close>.\<close>

fun Buffer_toString_base64 :: "nat list \<Rightarrow> string" where
  "Buffer_toString_base64 [] = []"
| "Buffer_toString_base64 [a] =
     [b64_digit (a div 4), b64_digit ((a mod 4) * 16), CHR ''='', CHR ''='']"
| "Buffer_toString_base64 [a, b] =
     [b64_digit (a div 4), b64_digit ((a mod 4) * 16 + b div 16),
      b64_digit ((b mod 16) * 4), CHR ''='']"
| "Buffer_toString_base64 (a # b # c # rest) =
     [b64_digit (a div 4), b64_digit ((a mod 4) * 16 + b div 16),
      b64_digit ((b mod 16) * 4 + c div 64), b64_digit (c mod 64)]
     @ Buffer_toString_base64 rest"

text \<open>
  Node's base64 decoder is lenient. A character counts when it is a digit of the base64 or
  of the URL-safe alphabet (\<^verbatim>\<open>-\<close> for 62, \<^verbatim>\<open>_\<close> for 63); every other character is
  skipped; decoding stops at the first \<^verbatim>\<open>=\<close>; a trailing group of two or three digits gives
  one or two bytes and a single trailing digit gives none. It never throws.
\<close>

definition unbase64 :: "char \<Rightarrow> nat option" where
  "unbase64 c =
     (let n = (of_char c :: nat) in
      if 65 \<le> n \<and> n \<le> 90 then Some (n - 65)
      else if 97 \<le> n \<and> n \<le> 122 then Some (n - 71)
      else if 48 \<le> n \<and> n \<le> 57 then Some (n + 4)
      else if n = 43 \<or> n = 45 then Some 62
      else if n = 47 \<or> n = 95 then Some 63
      else None)"

fun b64_bytes :: "nat list \<Rightarrow> nat list" where
  "b64_bytes (a # b # c # d # rest) =
     [a * 4 + b div 16, (b mod 16) * 16 + c div 4, (c mod 4) * 64 + d] @ b64_bytes rest"
| "b64_bytes [a, b, c] = [a * 4 + b div 16, (b mod 16) * 16 + c div 4]"
| "b64_bytes [a, b] = [a * 4 + b div 16]"
| "b64_bytes [a] = []"
| "b64_bytes [] = []"

definition Buffer_from_base64 :: "string \<Rightarrow> nat list" where
  "Buffer_from_base64 s =
     b64_bytes (List.map_filter unbase64 (takeWhile (\<lambda>c. c \<noteq> CHR ''='') s))"

text \<open>
  \<^verbatim>\<open>buf.toString()\<close> decodes the bytes as UTF-8 and never throws: a byte below 128 is a
  character; a lead byte with the continuation bytes it needs is one character; every
  byte sequence that is not well formed (a stray continuation byte, an overlong or
  surrogate or too large encoding, a sequence cut short) gives the replacement character
  \<^verbatim>\<open>U+FFFD\<close>, one for each maximal ill-formed part, and decoding goes on with the byte that
  broke the sequence.
\<close>

definition continuation :: "nat \<Rightarrow> bool" where
  "continuation b = (128 \<le> b \<and> b \<le> 191)"

text \<open>The second byte that the lead byte \<open>b\<close> of a three-byte or of a four-byte sequence
  admits.\<close>

definition second_of_three :: "nat \<Rightarrow> nat \<Rightarrow> bool" where
  "second_of_three b c =
     (if b = 224 then 160 \<le> c \<and> c \<le> 191
      else if b = 237 then 128 \<le> c \<and> c \<le> 159
      else continuation c)"

definition second_of_four :: "nat \<Rightarrow> nat \<Rightarrow> bool" where
  "second_of_four b c =
     (if b = 240 then 144 \<le> c \<and> c \<le> 191
      else if b = 244 then 128 \<le> c \<and> c \<le> 143
      else continuation c)"

fun Buffer_toString :: "nat list \<Rightarrow> int list" where
  "Buffer_toString [] = []"
| "Buffer_toString (b # bs) =
     (if b < 128 then int b # Buffer_toString bs
      else if 194 \<le> b \<and> b \<le> 223 then
        (case bs of
           [] \<Rightarrow> [65533]
         | c # r \<Rightarrow>
             if continuation c then (int (b - 192) * 64 + int (c - 128)) # Buffer_toString r
             else 65533 # Buffer_toString bs)
      else if 224 \<le> b \<and> b \<le> 239 then
        (case bs of
           [] \<Rightarrow> [65533]
         | c # r \<Rightarrow>
             if second_of_three b c then
               (case r of
                  [] \<Rightarrow> [65533]
                | d # r2 \<Rightarrow>
                    if continuation d
                    then (int (b - 224) * 4096 + int (c - 128) * 64 + int (d - 128)) # Buffer_toString r2
                    else 65533 # Buffer_toString r)
             else 65533 # Buffer_toString bs)
      else if 240 \<le> b \<and> b \<le> 244 then
        (case bs of
           [] \<Rightarrow> [65533]
         | c # r \<Rightarrow>
             if second_of_four b c then
               (case r of
                  [] \<Rightarrow> [65533]
                | d # r2 \<Rightarrow>
                    if continuation d then
                      (case r2 of
                         [] \<Rightarrow> [65533]
                       | e # r3 \<Rightarrow>
                           if continuation e
                           then (int (b - 240) * 262144 + int (c - 128) * 4096 + int (d - 128) * 64
                                 + int (e - 128))
                                  # Buffer_toString r3
                           else 65533 # Buffer_toString r2)
                    else 65533 # Buffer_toString r)
             else 65533 # Buffer_toString bs)
      else 65533 # Buffer_toString bs)"

text \<open>The code points of a string of 8-bit characters.\<close>

definition codepoints :: "string \<Rightarrow> int list" where
  "codepoints s = map of_char s"

section \<open>LinkEncoder\<close>

text \<open>
  \<^verbatim>\<open>encode\<close> draws \<^verbatim>\<open>Math.random().toString(36)\<close>; the model takes this string as the
  argument \<open>rnd36\<close>. It is \<^verbatim>\<open>0\<close> when the draw is zero and otherwise \<^verbatim>\<open>0.\<close> followed by
  the base-36 digits of the fraction, as many as the number needs: the draw \<^verbatim>\<open>0.5\<close> prints
  as \<^verbatim>\<open>0.i\<close>, a typical draw as something like \<^verbatim>\<open>0.4fzyo82mvyr\<close>.
\<close>

definition encode :: "string \<Rightarrow> string \<Rightarrow> string" where
  "encode rnd36 linkId =
     (let encoded = Buffer_toString_base64 (Buffer_from linkId);
          random = substring 2 5 rnd36
      in filter (\<lambda>c. c \<noteq> CHR ''='') encoded @ random)"

text \<open>
  \<^verbatim>\<open>decode\<close> returns the decoded string, or \<^verbatim>\<open>null\<close> (\<open>None\<close>) from its \<^verbatim>\<open>catch\<close> branch.
  Neither \<^verbatim>\<open>Buffer.from(base64, 'base64')\<close> nor \<^verbatim>\<open>toString()\<close> throws on a string, so the
  body of the \<^verbatim>\<open>try\<close> always completes.
\<close>

definition decode :: "string \<Rightarrow> int list option" where
  "decode encodedId =
     (let base64 = slice_0_neg 3 encodedId @ ''==''
      in Some (Buffer_toString (Buffer_from_base64 base64)))"

section \<open>The outside world\<close>

text \<open>
  The server talks to YouTube (through \<^verbatim>\<open>ytdl-core\<close>), to the hosts of the stream URLs
  (through \<^verbatim>\<open>axios\<close>), to GitHub (through \<^verbatim>\<open>octokit\<close>), and reads the clock and the random
  number generator. A promise of a library either is fulfilled with a value or is rejected
  with an error, of which the code reads the message.
\<close>

datatype 'a outcome = Returns 'a | Throws string

text \<open>A format that YouTube offers; \<open>f_url\<close> is \<open>None\<close> when the format carries no URL.\<close>

record video_format =
  f_quality :: string
  f_qualityLabel :: "string option"
  f_url :: "string option"
  f_hasVideo :: bool

record ytdl_info =
  videoDetails_title :: string
  videoDetails_lengthSeconds :: nat
  formats :: "video_format list"

text \<open>
  \<^verbatim>\<open>axios.head\<close> is fulfilled with a response, of which the code reads the status, or is
  rejected with an error that carries a message and, when the host answered at all, the
  status of its response. By default axios fulfils the promise for the statuses
  \<^verbatim>\<open>200\<close> to \<^verbatim>\<open>299\<close> and rejects it for every other one (\<^verbatim>\<open>validateStatus\<close>).
\<close>

datatype head_outcome = Resolved nat | Rejected "nat option" string

definition validateStatus :: "nat \<Rightarrow> bool" where
  "validateStatus status = (200 \<le> status \<and> status < 300)"

record config =
  GITHUB_OWNER :: string
  GITHUB_REPO :: string
  API_PASSWORD :: string

section \<open>Data model\<close>

text \<open>
  The object that the upload handler builds for one URL. A JavaScript object has an
  identity: two objects with the same fields are still two objects. The field \<open>oid\<close> is
  that identity, the number of the object among those the handler has built; the code never
  reads it.
\<close>

record link_data =
  originalUrl :: string
  streamUrl :: "string option"
  title :: string
  quality :: string
  createdAt :: int
  lastRefreshed :: int
  isValid :: bool
  oid :: nat

text \<open>One entry of the published file \<^verbatim>\<open>links.json\<close>.\<close>

record published =
  p_url :: "string option"
  p_title :: string
  p_updated :: int

text \<open>
  The globals of the module. A JavaScript object keeps its string keys in insertion order
  (no key here is a canonical array index), so \<^verbatim>\<open>linkDatabase\<close> is an association list:
  \<^verbatim>\<open>linkDatabase[k] = v\<close> is \<^const>\<open>AList.update\<close>, \<^verbatim>\<open>delete linkDatabase[k]\<close> is
  \<^const>\<open>AList.delete\<close>, \<^verbatim>\<open>Object.entries\<close> is the list itself. \<^verbatim>\<open>refreshTimer\<close> is
  \<^verbatim>\<open>null\<close> (\<open>False\<close>) or a timer handle (\<open>True\<close>). The field \<open>links_json\<close> is the file
  \<^verbatim>\<open>links.json\<close> of the GitHub repository, the one piece of remote state the server writes.
  The field \<open>next_oid\<close> counts the entry objects built so far.
\<close>

record state =
  refreshTimer :: bool
  pendingUploads :: "(string \<times> link_data) list"
  linkDatabase :: "(string \<times> link_data) list"
  isRefreshing :: bool
  links_json :: "(string \<times> published) list option"
  next_oid :: nat

definition initial_state :: state where
  "initial_state =
     \<lparr>refreshTimer = False, pendingUploads = [], linkDatabase = [], isRefreshing = False,
      links_json = None, next_oid = 0\<rparr>"

section \<open>What the world does during one run\<close>

text \<open>
  Node.js runs one handler at a time, but a handler that waits at an \<^verbatim>\<open>await\<close> lets other
  handlers run. While a refresh cycle waits, three things can happen to the globals: an upload
  handler pushes the object it has built for a URL onto \<^verbatim>\<open>pendingUploads\<close> (its id is
  generated at that moment); an upload handler arms the timer; the timer fires. A scheduled
  refresh or a status request that arrives meanwhile changes nothing.
\<close>

datatype event = Upload_pushed link_data | Upload_scheduled | Timer_fired

text \<open>
  What the world answers during one run of an operation. A request is identified by the
  function that makes it and by the number of the loop iteration it is made in (counted
  from 0), so that the same URL may be answered differently each time. In the same way
  \<open>interleaved\<close> gives, for every \<^verbatim>\<open>await\<close> of the refresh cycle, what the other handlers
  do while the cycle waits there.
\<close>

record env =
  CONFIG :: config
  ytdl_getInfo :: "string \<Rightarrow> nat \<Rightarrow> string \<Rightarrow> ytdl_info outcome"
  axios_head :: "nat \<Rightarrow> string \<Rightarrow> head_outcome"
  Date_now :: "string \<Rightarrow> nat \<Rightarrow> int"
  Math_random36 :: "nat \<Rightarrow> string"
  octokit_getContent :: "string outcome"
  octokit_createOrUpdateFileContents :: "string option \<Rightarrow> unit outcome"
  interleaved :: "string \<Rightarrow> nat \<Rightarrow> event list"

section \<open>YouTubeConverter\<close>

record video_info =
  vi_title :: string
  vi_duration :: nat
  vi_isAvailable :: bool
  vi_error :: "string option"

record stream_data =
  sd_streamUrl :: "string option"
  sd_title :: string
  sd_quality :: string
  sd_expiresAt :: "int option"
  sd_isValid :: bool
  sd_error :: "string option"

text \<open>Both functions take the answer of \<^verbatim>\<open>await ytdl.getInfo(url)\<close> as their argument.\<close>

definition getVideoInfo :: "ytdl_info outcome \<Rightarrow> video_info" where
  "getVideoInfo reply =
     (case reply of
        Returns info \<Rightarrow>
          \<lparr>vi_title = videoDetails_title info, vi_duration = videoDetails_lengthSeconds info,
           vi_isAvailable = True, vi_error = None\<rparr>
      | Throws msg \<Rightarrow>
          \<lparr>vi_title = ''Unknown Video'', vi_duration = 0, vi_isAvailable = False,
           vi_error = Some msg\<rparr>)"

definition conversion_failed :: "string \<Rightarrow> stream_data" where
  "conversion_failed msg =
     \<lparr>sd_streamUrl = None, sd_title = ''Conversion Failed'', sd_quality = ''N/A'',
      sd_expiresAt = None, sd_isValid = False, sd_error = Some msg\<rparr>"

text \<open>\<^verbatim>\<open>ytdl.filterFormats(formats, 'video')\<close> keeps the formats that carry a URL and have a
  video track.\<close>

definition filterFormats_video :: "video_format list \<Rightarrow> video_format list" where
  "filterFormats_video fs = filter (\<lambda>f. truthy (f_url f) \<and> f_hasVideo f) fs"

definition convertToStreamLink :: "ytdl_info outcome \<Rightarrow> int \<Rightarrow> stream_data" where
  "convertToStreamLink reply now =
     (case reply of
        Throws msg \<Rightarrow> conversion_failed msg
      | Returns info \<Rightarrow>
          (let fs = filterFormats_video (formats info);
               bestFormat =
                 (case find (\<lambda>f. f_quality f = ''highest'') fs of
                    Some f \<Rightarrow> Some f
                  | None \<Rightarrow> (case fs of [] \<Rightarrow> None | f # _ \<Rightarrow> Some f))
           in case bestFormat of
                None \<Rightarrow> conversion_failed ''No video format available''
              | Some best \<Rightarrow>
                  \<lparr>sd_streamUrl = f_url best, sd_title = videoDetails_title info,
                   sd_quality =
                     (if truthy (f_qualityLabel best) then the (f_qualityLabel best)
                      else ''Unknown''),
                   sd_expiresAt = Some (now + 6 * 60 * 60 * 1000), sd_isValid = True,
                   sd_error = None\<rparr>))"

section \<open>The other handlers\<close>

definition generateLinkId :: "string \<Rightarrow> state \<Rightarrow> string" where
  "generateLinkId type st =
     (let existing = filter (\<lambda>k. startsWith k type) (map fst (linkDatabase st));
          nextNum = length existing + 1
      in type @ padStart 3 CHR ''0'' (String_of_nat nextNum))"

text \<open>\<^verbatim>\<open>scheduleBatchUpload\<close> clears the timer, if there is one, and arms a new one.\<close>

definition scheduleBatchUpload :: "state \<Rightarrow> state" where
  "scheduleBatchUpload st = st\<lparr>refreshTimer := True\<rparr>"

text \<open>The first part of the callback that \<^verbatim>\<open>scheduleBatchUpload\<close> hands to \<^verbatim>\<open>setTimeout\<close>:
  the pending uploads are taken and written into the registry.\<close>

definition admit_pending :: "state \<Rightarrow> state" where
  "admit_pending st =
     (let uploads = pendingUploads st;
          st1 = st\<lparr>pendingUploads := []\<rparr>
      in st1\<lparr>linkDatabase :=
               foldl (\<lambda>db upload. AList.update (fst upload) (snd upload) db)
                 (linkDatabase st1) uploads\<rparr>)"

text \<open>
  One step of another handler while a cycle waits. The pushed object is a new one. The
  timer callback ends with a call of \<^verbatim>\<open>refreshAllLinks\<close>, which returns at once since a
  cycle is running.
\<close>

fun step :: "event \<Rightarrow> state \<Rightarrow> state" where
  "step (Upload_pushed linkData) st =
     st\<lparr>pendingUploads :=
          pendingUploads st @ [(generateLinkId ''mov'' st, linkData\<lparr>oid := next_oid st\<rparr>)],
        next_oid := next_oid st + 1\<rparr>"
| "step Upload_scheduled st = scheduleBatchUpload st"
| "step Timer_fired st = (if length (pendingUploads st) > 0 then admit_pending st else st)"

text \<open>The cycle waits at the \<^verbatim>\<open>await\<close> of the function \<open>site\<close>, in iteration \<open>i\<close>.\<close>

definition await_at :: "env \<Rightarrow> string \<Rightarrow> nat \<Rightarrow> state \<Rightarrow> state" where
  "await_at env site i st = fold step (interleaved env site i) st"

section \<open>LinkHealthChecker\<close>

record health_check =
  isActive :: bool
  hc_status :: nat
  hc_error :: "string option"

text \<open>\<^verbatim>\<open>checkLink\<close> takes the answer of \<^verbatim>\<open>await axios.head(streamUrl, {timeout: 10000})\<close> as
  its argument; a timeout is a rejection without a response.\<close>

definition checkLink :: "head_outcome \<Rightarrow> health_check" where
  "checkLink reply =
     (case reply of
        Resolved status \<Rightarrow> \<lparr>isActive = (status = 200), hc_status = status, hc_error = None\<rparr>
      | Rejected response msg \<Rightarrow>
          \<lparr>isActive = False,
           hc_status = (case response of None \<Rightarrow> 0 | Some status \<Rightarrow> status),
           hc_error = Some msg\<rparr>)"

record broken_link =
  bl_id :: string
  bl_title :: string
  bl_reason :: string
  bl_originalUrl :: string

record detail =
  d_id :: string
  d_title :: string
  d_status :: string
  d_lastChecked :: int

record check_results =
  r_total :: nat
  r_active :: nat
  r_broken :: nat
  r_details :: "detail list"
  r_duration :: "int option"

text \<open>
  The body of the \<^verbatim>\<open>for\<close> loop of \<^verbatim>\<open>checkAllLinks\<close>, in iteration \<open>i\<close>. The loop runs over
  the entries that \<^verbatim>\<open>Object.entries(linkDatabase)\<close> returned when it began; the globals, the
  last component, change only while the probe is awaited.
\<close>

fun checkAllLinks_loop ::
  "env \<Rightarrow> nat \<Rightarrow> (string \<times> link_data) list \<Rightarrow> (broken_link list \<times> check_results) \<times> state
     \<Rightarrow> (broken_link list \<times> check_results) \<times> state" where
  "checkAllLinks_loop env i [] acc = acc"
| "checkAllLinks_loop env i ((linkId, linkData) # rest) ((brokenLinks, results), st) =
     (let results1 = results\<lparr>r_total := r_total results + 1\<rparr> in
      if \<not> truthy (streamUrl linkData) then
        checkAllLinks_loop env (i + 1) rest
          ((brokenLinks @
              [\<lparr>bl_id = linkId, bl_title = title linkData, bl_reason = ''No stream URL'',
                bl_originalUrl = originalUrl linkData\<rparr>],
            results1\<lparr>r_broken := r_broken results1 + 1\<rparr>),
           st)
      else
        let st1 = await_at env ''checkLink'' i st;
            healthCheck = checkLink (axios_head env i (the (streamUrl linkData)));
            d = \<lparr>d_id = linkId, d_title = title linkData,
                 d_status = (if isActive healthCheck then ''active'' else ''broken''),
                 d_lastChecked = Date_now env ''lastChecked'' i\<rparr>
        in if isActive healthCheck then
             checkAllLinks_loop env (i + 1) rest
               ((brokenLinks,
                 results1\<lparr>r_active := r_active results1 + 1,
                          r_details := r_details results1 @ [d]\<rparr>),
                st1)
           else
             checkAllLinks_loop env (i + 1) rest
               ((brokenLinks @
                   [\<lparr>bl_id = linkId, bl_title = title linkData,
                     bl_reason =
                       (if truthy (hc_error healthCheck) then the (hc_error healthCheck)
                        else ''HTTP '' @ String_of_nat (hc_status healthCheck)),
                     bl_originalUrl = originalUrl linkData\<rparr>],
                 results1\<lparr>r_broken := r_broken results1 + 1,
                          r_details := r_details results1 @ [d]\<rparr>),
                st1))"

definition checkAllLinks :: "env \<Rightarrow> state \<Rightarrow> (broken_link list \<times> check_results) \<times> state" where
  "checkAllLinks env st =
     checkAllLinks_loop env 0 (linkDatabase st)
       (([], \<lparr>r_total = 0, r_active = 0, r_broken = 0, r_details = [], r_duration = None\<rparr>), st)"

section \<open>GitHubManager\<close>

text \<open>The loop of \<^verbatim>\<open>updateLinksFile\<close> that prepares \<^verbatim>\<open>githubData\<close>: every id is encoded
  anew, with a fresh random draw.\<close>

fun githubData_loop ::
  "env \<Rightarrow> nat \<Rightarrow> (string \<times> link_data) list \<Rightarrow> (string \<times> published) list
     \<Rightarrow> (string \<times> published) list" where
  "githubData_loop env i [] githubData = githubData"
| "githubData_loop env i ((linkId, linkData) # rest) githubData =
     (let encodedId = encode (Math_random36 env i) linkId
      in githubData_loop env (i + 1) rest
           (AList.update encodedId
              \<lparr>p_url = streamUrl linkData, p_title = title linkData,
               p_updated = Date_now env ''updated'' i\<rparr>
              githubData))"

text \<open>
  \<^verbatim>\<open>updateLinksFile\<close> prepares the data from the registry as it is when the function is
  called, reads the SHA of the current file (none when the request fails), then writes the
  file; when the write fails it logs and returns \<^verbatim>\<open>false\<close>. It waits for each of the two
  requests.
\<close>

definition updateLinksFile :: "env \<Rightarrow> state \<Rightarrow> bool \<times> state" where
  "updateLinksFile env st =
     (let githubData = githubData_loop env 0 (linkDatabase st) [];
          st1 = await_at env ''getContent'' 0 st;
          fileSha = (case octokit_getContent env of Returns sha \<Rightarrow> Some sha | Throws msg \<Rightarrow> None);
          st2 = await_at env ''createOrUpdateFileContents'' 0 st1
      in case octokit_createOrUpdateFileContents env fileSha of
           Returns u \<Rightarrow> (True, st2\<lparr>links_json := Some githubData\<rparr>)
         | Throws msg \<Rightarrow> (False, st2))"

section \<open>The refresh cycle\<close>

text \<open>The prune step of \<^verbatim>\<open>refreshAllLinks\<close>:
  \<^verbatim>\<open>brokenLinks.forEach(link => { delete linkDatabase[link.id]; })\<close>.\<close>

definition delete_broken ::
  "broken_link list \<Rightarrow> (string \<times> link_data) list \<Rightarrow> (string \<times> link_data) list" where
  "delete_broken brokenLinks db = foldl (\<lambda>d link. AList.delete (bl_id link) d) db brokenLinks"

text \<open>
  The re-resolution loop of \<^verbatim>\<open>refreshAllLinks\<close>. It runs over the entries that
  \<^verbatim>\<open>Object.entries(linkDatabase)\<close> returned before the loop, waits for the resolution, and
  then assigns to \<^verbatim>\<open>linkDatabase[linkId]\<close>, the entry that the registry holds under this id
  at that moment. (Nothing deletes an entry while the loop waits, so there is one.)
\<close>

fun refresh_loop :: "env \<Rightarrow> nat \<Rightarrow> (string \<times> link_data) list \<Rightarrow> state \<Rightarrow> state" where
  "refresh_loop env i [] st = st"
| "refresh_loop env i ((linkId, linkData) # rest) st =
     (if originalUrl linkData \<noteq> [] then
        let st1 = await_at env ''convertToStreamLink'' i st;
            newStreamData =
              convertToStreamLink
                (ytdl_getInfo env ''convertToStreamLink'' i (originalUrl linkData))
                (Date_now env ''expiresAt'' i)
        in if sd_isValid newStreamData then
             refresh_loop env (i + 1) rest
               (st1\<lparr>linkDatabase :=
                      AList.map_entry linkId
                        (\<lambda>d. d\<lparr>streamUrl := sd_streamUrl newStreamData,
                                lastRefreshed := Date_now env ''lastRefreshed'' i\<rparr>)
                        (linkDatabase st1)\<rparr>)
           else refresh_loop env (i + 1) rest st1
      else refresh_loop env (i + 1) rest st)"

text \<open>
  \<^verbatim>\<open>refreshAllLinks\<close>. The cycle waits at every \<^verbatim>\<open>await\<close>: for each probe and each
  resolution, for the two requests to GitHub, and for the \<^verbatim>\<open>async\<close> functions it calls
  (\<^verbatim>\<open>checkAllLinks\<close>, \<^verbatim>\<open>sendBrokenLinksLog\<close>, \<^verbatim>\<open>updateLinksFile\<close>, \<^verbatim>\<open>generateRefreshLog\<close>).
  Console output is not part of the model, so \<^verbatim>\<open>sendBrokenLinksLog\<close> and
  \<^verbatim>\<open>generateRefreshLog\<close>, which only print, leave no other trace. No step inside the
  \<^verbatim>\<open>try\<close> throws (each library call is wrapped by its caller), so the \<^verbatim>\<open>finally\<close> clause is
  the last step of the one path there is.
\<close>

definition refreshAllLinks :: "env \<Rightarrow> state \<Rightarrow> state" where
  "refreshAllLinks env st =
     (if isRefreshing st then st
      else
        let st1 = st\<lparr>isRefreshing := True\<rparr>;
            ((brokenLinks, results), st2) = checkAllLinks env st1;
            st3 = await_at env ''checkAllLinks'' 0 st2;
            st4 = (if length brokenLinks > 0
                   then let st3a = await_at env ''sendBrokenLinksLog'' 0 st3
                        in st3a\<lparr>linkDatabase := delete_broken brokenLinks (linkDatabase st3a)\<rparr>
                   else st3);
            st5 = refresh_loop env 0 (linkDatabase st4) st4;
            st6 = snd (updateLinksFile env st5);
            st7 = await_at env ''updateLinksFile'' 0 st6;
            st8 = await_at env ''generateRefreshLog'' 0 st7
        in st8\<lparr>isRefreshing := False\<rparr>)"

section \<open>Batch upload\<close>

text \<open>The callback that \<^verbatim>\<open>scheduleBatchUpload\<close> hands to \<^verbatim>\<open>setTimeout\<close>, run when the
  timer fires.\<close>

definition refreshTimer_fired :: "env \<Rightarrow> state \<Rightarrow> state" where
  "refreshTimer_fired env st =
     (if length (pendingUploads st) > 0 then refreshAllLinks env (admit_pending st) else st)"

section \<open>API routes\<close>

text \<open>
  The body of \<^verbatim>\<open>POST /api/upload\<close>: \<open>links\<close> is \<open>None\<close> when the field is missing or is not
  an array, \<open>password\<close> is \<open>None\<close> when the field is missing.
\<close>

record upload_request =
  links :: "string list option"
  password :: "string option"

record upload_result =
  u_originalUrl :: string
  u_masterLink :: string
  u_title :: string
  u_linkId :: string
  u_status :: string

datatype upload_response =
  Json200 "upload_result list" string
| Json401 string
| Json400 string

text \<open>The \<^verbatim>\<open>for\<close> loop of the upload handler, in iteration \<open>i\<close>: it pushes to
  \<^verbatim>\<open>pendingUploads\<close> and to the local \<^verbatim>\<open>results\<close>. The handler is modelled as running
  with no other handler in between.\<close>

fun upload_loop ::
  "env \<Rightarrow> nat \<Rightarrow> string list \<Rightarrow> state \<times> upload_result list \<Rightarrow> state \<times> upload_result list" where
  "upload_loop env i [] acc = acc"
| "upload_loop env i (url # rest) (st, results) =
     (let videoInfo = getVideoInfo (ytdl_getInfo env ''getVideoInfo'' i url);
          streamData =
            convertToStreamLink (ytdl_getInfo env ''convertToStreamLink'' i url)
              (Date_now env ''expiresAt'' i);
          linkId = generateLinkId ''mov'' st;
          encodedId = encode (Math_random36 env i) linkId;
          linkData =
            \<lparr>originalUrl = url, streamUrl = sd_streamUrl streamData, title = vi_title videoInfo,
             quality = sd_quality streamData, createdAt = Date_now env ''createdAt'' i,
             lastRefreshed = Date_now env ''lastRefreshed'' i,
             isValid = (sd_isValid streamData \<and> vi_isAvailable videoInfo),
             oid = next_oid st\<rparr>
      in upload_loop env (i + 1) rest
           (st\<lparr>pendingUploads := pendingUploads st @ [(linkId, linkData)],
               next_oid := next_oid st + 1\<rparr>,
            results @
              [\<lparr>u_originalUrl = url,
                u_masterLink =
                  ''https://'' @ GITHUB_OWNER (CONFIG env) @ ''.github.io/'' @
                  GITHUB_REPO (CONFIG env) @ ''/r/'' @ encodedId,
                u_title = vi_title videoInfo, u_linkId = linkId,
                u_status = (if isValid linkData then ''success'' else ''failed'')\<rparr>]))"

text \<open>No step of the handler's \<^verbatim>\<open>try\<close> throws, so its answer is one of three.\<close>

definition api_upload :: "env \<Rightarrow> upload_request \<Rightarrow> state \<Rightarrow> upload_response \<times> state" where
  "api_upload env req st =
     (if password req \<noteq> Some (API_PASSWORD (CONFIG env)) then (Json401 ''Invalid password'', st)
      else
        case links req of
          None \<Rightarrow> (Json400 ''Links array required'', st)
        | Some urls \<Rightarrow>
            (let (st1, results) = upload_loop env 0 urls (st, []);
                 st2 = scheduleBatchUpload st1
             in (Json200 results
                   (String_of_nat (length results) @
                    '' links processed. Refresh will happen in 5 minutes.''),
                 st2)))"

text \<open>
  \<^verbatim>\<open>GET /api/status\<close>. The handler names two classes, \<^verbatim>\<open>LinkCleaner\<close> and
  \<^verbatim>\<open>ViewTracker\<close>. Neither is a global of Node.js, so each is resolved against the bindings
  of the module: what it imports with \<^verbatim>\<open>require\<close> and what it declares at top level. An
  identifier that is not bound throws a \<^verbatim>\<open>ReferenceError\<close>, which Express answers with
  status 500.
\<close>

definition module_bindings :: "string list" where
  "module_bindings =
     [''express'', ''cron'', ''axios'', ''Octokit'', ''ytdl'', ''app'', ''CONFIG'', ''octokit'',
      ''refreshTimer'', ''pendingUploads'', ''linkDatabase'', ''isRefreshing'', ''LinkEncoder'',
      ''YouTubeConverter'', ''LinkHealthChecker'', ''GitHubManager'', ''LogCollector'',
      ''refreshAllLinks'', ''scheduleBatchUpload'', ''generateLinkId'', ''PORT'']"

datatype js_error = ReferenceError string

text \<open>What the two classes that the handler names would answer, if the module had them.\<close>

record status_helpers =
  LinkCleaner_getOldLinks :: "string list"
  ViewTracker_getTotalViews :: nat
  ViewTracker_getTopLinks :: "nat \<Rightarrow> string list"

record status_body =
  totalLinks :: nat
  totalViews :: nat
  s_pendingUploads :: nat
  oldLinksToClean :: nat
  lastRefresh :: int
  s_isRefreshing :: bool
  nextRefresh :: string
  topLinks :: "string list"

definition api_status :: "env \<Rightarrow> status_helpers \<Rightarrow> state \<Rightarrow> js_error + status_body" where
  "api_status env helpers st =
     (if ''LinkCleaner'' \<notin> set module_bindings then Inl (ReferenceError ''LinkCleaner'')
      else
        let oldLinksCount = length (LinkCleaner_getOldLinks helpers) in
        if ''ViewTracker'' \<notin> set module_bindings then Inl (ReferenceError ''ViewTracker'')
        else
          Inr \<lparr>totalLinks = length (linkDatabase st),
               totalViews = ViewTracker_getTotalViews helpers,
               s_pendingUploads = length (pendingUploads st),
               oldLinksToClean = oldLinksCount,
               lastRefresh = Date_now env ''lastRefresh'' 0,
               s_isRefreshing = isRefreshing st,
               nextRefresh = (if refreshTimer st then ''Scheduled'' else ''None''),
               topLinks = ViewTracker_getTopLinks helpers 5\<rparr>)"

section \<open>Notions used in the statements\<close>

text \<open>
  The entry visited in iteration \<open>i\<close> of the health phase passes when it has a stream URL
  and the probe of this URL made in that iteration reports it active.
\<close>

definition probed_active :: "env \<Rightarrow> nat \<Rightarrow> link_data \<Rightarrow> bool" where
  "probed_active env i linkData =
     (truthy (streamUrl linkData) \<and>
      isActive (checkLink (axios_head env i (the (streamUrl linkData)))))"

text \<open>The ids of the entries that do not pass, in the order of the registry.\<close>

fun broken_ids :: "env \<Rightarrow> nat \<Rightarrow> (string \<times> link_data) list \<Rightarrow> string list" where
  "broken_ids env i [] = []"
| "broken_ids env i ((linkId, linkData) # rest) =
     (if probed_active env i linkData then [] else [linkId]) @ broken_ids env (i + 1) rest"

text \<open>The identities of the objects that a list of entries holds.\<close>

definition oids :: "(string \<times> link_data) list \<Rightarrow> nat list" where
  "oids db = map (\<lambda>entry. oid (snd entry)) db"

text \<open>
  Objects are what they are in JavaScript: the registry and the pending uploads hold
  different objects, and each was built before the next one will be. Every state that the
  server reaches is of this kind (see below).
\<close>

definition well_formed :: "state \<Rightarrow> bool" where
  "well_formed st =
     (distinct (oids (linkDatabase st @ pendingUploads st)) \<and>
      list_all (\<lambda>r. r < next_oid st) (oids (linkDatabase st @ pendingUploads st)))"

text \<open>
  What a running cycle keeps true of the objects that the registry \<open>db0\<close> held when the
  cycle began: such an object is still under its id, and this id is not in \<open>B\<close> (the ids
  that the prune step has deleted); no pending upload is such an object, and no object
  built from now on will be one.
\<close>

definition old_kept :: "(string \<times> link_data) list \<Rightarrow> string set \<Rightarrow> state \<Rightarrow> bool" where
  "old_kept db0 B st =
     ((\<forall>k e. (k, e) \<in> set (linkDatabase st) \<longrightarrow> oid e \<in> set (oids db0) \<longrightarrow>
          k \<notin> B \<and> (\<exists>e0. (k, e0) \<in> set db0 \<and> oid e0 = oid e))
      \<and> (\<forall>k e. (k, e) \<in> set (pendingUploads st) \<longrightarrow> oid e \<notin> set (oids db0))
      \<and> (\<forall>r \<in> set (oids db0). r < next_oid st))"

text \<open>What the Resolution Client answers for the entry visited in iteration \<open>i\<close> of the
  re-resolution loop, and what the claim wants this iteration to make of the entry.\<close>

definition resolved :: "env \<Rightarrow> nat \<Rightarrow> link_data \<Rightarrow> stream_data" where
  "resolved env i linkData =
     convertToStreamLink (ytdl_getInfo env ''convertToStreamLink'' i (originalUrl linkData))
       (Date_now env ''expiresAt'' i)"

definition refreshed :: "env \<Rightarrow> nat \<Rightarrow> link_data \<Rightarrow> link_data" where
  "refreshed env i linkData =
     (if originalUrl linkData \<noteq> [] \<and> sd_isValid (resolved env i linkData)
      then linkData\<lparr>streamUrl := sd_streamUrl (resolved env i linkData),
                    lastRefreshed := Date_now env ''lastRefreshed'' i\<rparr>
      else linkData)"

fun refreshed_list :: "env \<Rightarrow> nat \<Rightarrow> (string \<times> link_data) list \<Rightarrow> (string \<times> link_data) list" where
  "refreshed_list env i [] = []"
| "refreshed_list env i ((linkId, linkData) # rest) =
     (linkId, refreshed env i linkData) # refreshed_list env (i + 1) rest"

text \<open>The base64 digits of a sequence of bytes, as values and without the padding.\<close>

fun sextets_of :: "nat list \<Rightarrow> nat list" where
  "sextets_of [] = []"
| "sextets_of [a] = [a div 4, (a mod 4) * 16]"
| "sextets_of [a, b] = [a div 4, (a mod 4) * 16 + b div 16, (b mod 16) * 4]"
| "sextets_of (a # b # c # rest) =
     [a div 4, (a mod 4) * 16 + b div 16, (b mod 16) * 4 + c div 64, c mod 64] @ sextets_of rest"

text \<open>The results of an upload, none when the request was refused.\<close>

definition upload_results :: "upload_response \<Rightarrow> upload_result list" where
  "upload_results response = (case response of Json200 results message \<Rightarrow> results | _ \<Rightarrow> [])"

text \<open>Of every entry its id, its original URL, its stream URL and its identity.\<close>

definition summary :: "(string \<times> link_data) list \<Rightarrow> (string \<times> string \<times> string option \<times> nat) list" where
  "summary db = map (\<lambda>entry. (fst entry, originalUrl (snd entry), streamUrl (snd entry), oid (snd entry))) db"

section \<open>Scenarios\<close>

text \<open>
  A world in which everything works and nothing else happens: YouTube knows every video,
  every stream URL answers \<^verbatim>\<open>200\<close>, \<^verbatim>\<open>links.json\<close> does not exist yet and can be written,
  and no other handler runs while a cycle waits.
\<close>

definition demo_info :: "string \<Rightarrow> ytdl_info" where
  "demo_info url =
     \<lparr>videoDetails_title = ''Clip'', videoDetails_lengthSeconds = 60,
      formats = [\<lparr>f_quality = ''highest'', f_qualityLabel = Some ''720p'', f_url = Some url,
                  f_hasVideo = True\<rparr>]\<rparr>"

definition demo_env :: env where
  "demo_env =
     \<lparr>CONFIG = \<lparr>GITHUB_OWNER = ''owner'', GITHUB_REPO = ''repo'', API_PASSWORD = ''secret''\<rparr>,
      ytdl_getInfo = (\<lambda>site i url. Returns (demo_info ''https://cdn.example/stream'')),
      axios_head = (\<lambda>i url. Resolved 200),
      Date_now = (\<lambda>site i. 1000),
      Math_random36 = (\<lambda>i. ''0.4fzyo82mvyr''),
      octokit_getContent = Throws ''Not Found'',
      octokit_createOrUpdateFileContents = (\<lambda>sha. Returns ()),
      interleaved = (\<lambda>site i. [])\<rparr>"

text \<open>The same world, but the probe of iteration \<open>n\<close> is answered with status 404.\<close>

definition env_404_at :: "nat \<Rightarrow> env" where
  "env_404_at n =
     demo_env\<lparr>axios_head :=
       (\<lambda>i url. if i = n then Rejected (Some 404) ''Request failed with status code 404''
                 else Resolved 200)\<rparr>"

text \<open>The same world, but a later hour: the random draws differ, YouTube resolves the
  video of iteration 0 to a new stream URL and fails for every other one.\<close>

definition env_later :: env where
  "env_later =
     demo_env\<lparr>Math_random36 := (\<lambda>i. ''0.k9x2mq71b3c''),
              Date_now := (\<lambda>site i. 2000),
              ytdl_getInfo :=
                (\<lambda>site i url. if i = 0 then Returns (demo_info ''https://cdn.example/stream2'')
                               else Throws ''Video unavailable'')\<rparr>"

definition upload_of :: "string list \<Rightarrow> upload_request" where
  "upload_of urls = \<lparr>links = Some urls, password = Some ''secret''\<rparr>"

text \<open>One URL is uploaded and the timer fires; a second URL is uploaded and the timer fires
  again. The registry then holds \<^verbatim>\<open>mov001\<close> and \<^verbatim>\<open>mov002\<close>.\<close>

definition after_first_batch :: state where
  "after_first_batch =
     refreshTimer_fired demo_env
       (snd (api_upload demo_env (upload_of [''https://youtu.be/a'']) initial_state))"

definition after_two_batches :: state where
  "after_two_batches =
     refreshTimer_fired demo_env
       (snd (api_upload demo_env (upload_of [''https://youtu.be/b'']) after_first_batch))"

text \<open>
  A third URL is uploaded and waits as \<^verbatim>\<open>mov003\<close>. The scheduled refresh starts a cycle
  before the timer fires; the timer fires while the cycle waits for its first probe, and
  the second probe is answered with status 404.
\<close>

definition third_pending :: state where
  "third_pending =
     snd (api_upload demo_env (upload_of [''https://youtu.be/c'']) after_two_batches)"

definition env_timer_in_probe :: env where
  "env_timer_in_probe =
     (env_404_at 1)\<lparr>interleaved :=
       (\<lambda>site i. if site = ''checkLink'' \<and> i = 0 then [Timer_fired] else [])\<rparr>"

text \<open>
  Or else: a cycle removes \<^verbatim>\<open>mov001\<close>, whose probe is answered with status 404, and then the
  third URL is uploaded; it waits under the id \<^verbatim>\<open>mov002\<close>, which the registry still holds.
  The scheduled refresh starts a cycle before the timer fires, and the timer fires while the
  cycle waits for its first resolution. In this world the stream URL that YouTube gives
  tells the video it is for.
\<close>

definition reused_pending :: state where
  "reused_pending =
     snd (api_upload demo_env (upload_of [''https://youtu.be/c''])
            (refreshAllLinks (env_404_at 0) after_two_batches))"

definition env_timer_in_resolution :: env where
  "env_timer_in_resolution =
     demo_env\<lparr>interleaved :=
                (\<lambda>site i. if site = ''convertToStreamLink'' \<and> i = 0 then [Timer_fired] else []),
              ytdl_getInfo :=
                (\<lambda>site i url. Returns (demo_info (''https://cdn.example/fresh/'' @ url))),
              Date_now := (\<lambda>site i. 2000)\<rparr>"

section \<open>The registry through a cycle\<close>

text \<open>The prune step deletes the ids of the entries that did not pass; what the other
  handlers do while the cycle waits keeps \<^const>\<open>old_kept\<close>.\<close>

lemma checkAllLinks_loop_ids:
  "map bl_id (fst (fst (checkAllLinks_loop env i es ((bs, rs), st)))) =
     map bl_id bs @ broken_ids env i es"
proof (induction es arbitrary: i bs rs st)
  case Nil
  show ?case by simp
next
  case (Cons p es)
  obtain k e where p: "p = (k, e)" by (cases p)
  show ?case
    unfolding p by (simp add: Let_def probed_active_def Cons.IH)
qed

lemma broken_ids_iff:
  "k \<in> set (broken_ids env i es) \<longleftrightarrow>
     (\<exists>j < length es. fst (es ! j) = k \<and> \<not> probed_active env (i + j) (snd (es ! j)))"
proof (induction es arbitrary: i)
  case Nil
  show ?case by simp
next
  case (Cons p es)
  obtain k' e where p: "p = (k', e)" by (cases p)
  have split: "(\<exists>j < length (p # es). P j) \<longleftrightarrow> P 0 \<or> (\<exists>j < length es. P (Suc j))" for P
    by (auto simp: less_Suc_eq_0_disj)
  show ?case
    unfolding split by (auto simp: p Cons.IH)
qed

lemma set_update:
  "(k', e') \<in> set (AList.update k v db) \<Longrightarrow> (k', e') = (k, v) \<or> (k', e') \<in> set db"
  by (induction db) (auto split: if_splits)

lemma set_admit:
  "(k, e) \<in> set (foldl (\<lambda>db upload. AList.update (fst upload) (snd upload) db) db uploads) \<Longrightarrow>
     (k, e) \<in> set db \<or> (k, e) \<in> set uploads"
proof (induction uploads arbitrary: db)
  case Nil
  then show ?case by simp
next
  case (Cons u uploads)
  from Cons.IH [of "AList.update (fst u) (snd u) db"] Cons.prems
  have "(k, e) \<in> set (AList.update (fst u) (snd u) db) \<or> (k, e) \<in> set uploads"
    by simp
  then show ?case
    using set_update [of k e "fst u" "snd u" db] by auto
qed

lemma set_map_entry:
  "(k', e') \<in> set (AList.map_entry k f db) \<Longrightarrow>
     (k', e') \<in> set db \<or> (\<exists>e. (k', e) \<in> set db \<and> e' = f e)"
  by (induction db) (auto split: if_splits)

lemma set_delete_broken:
  "(k, e) \<in> set (delete_broken bs db) \<Longrightarrow> (k, e) \<in> set db \<and> k \<notin> bl_id ` set bs"
  unfolding delete_broken_def
proof (induction bs arbitrary: db)
  case Nil
  then show ?case by simp
next
  case (Cons b bs)
  from Cons.IH [of "AList.delete (bl_id b) db"] Cons.prems
  have "(k, e) \<in> set (AList.delete (bl_id b) db) \<and> k \<notin> bl_id ` set bs"
    by simp
  then show ?case
    by (auto simp: AList.delete_eq)
qed

lemma old_kept_step: "old_kept db0 B st \<Longrightarrow> old_kept db0 B (step ev st)"
proof (cases ev)
  case (Upload_pushed d)
  assume "old_kept db0 B st"
  then show ?thesis
    unfolding Upload_pushed old_kept_def by (auto simp: less_Suc_eq)
next
  case Upload_scheduled
  assume "old_kept db0 B st"
  then show ?thesis
    unfolding Upload_scheduled old_kept_def by (simp add: scheduleBatchUpload_def)
next
  case Timer_fired
  assume a: "old_kept db0 B st"
  show ?thesis
  proof (cases "length (pendingUploads st) > 0")
    case False
    with a show ?thesis by (simp add: Timer_fired)
  next
    case True
    have "old_kept db0 B (admit_pending st)"
      using a unfolding old_kept_def admit_pending_def Let_def
      by (auto dest!: set_admit)
    with True show ?thesis by (simp add: Timer_fired)
  qed
qed

lemma old_kept_await: "old_kept db0 B st \<Longrightarrow> old_kept db0 B (await_at env site i st)"
proof -
  have "old_kept db0 B st \<Longrightarrow> old_kept db0 B (fold step evs st)" for evs
    by (induction evs arbitrary: st) (simp_all add: old_kept_step)
  then show "old_kept db0 B st \<Longrightarrow> old_kept db0 B (await_at env site i st)"
    by (simp add: await_at_def)
qed

lemma old_kept_checkAllLinks_loop:
  "old_kept db0 B st \<Longrightarrow> old_kept db0 B (snd (checkAllLinks_loop env i es ((bs, rs), st)))"
proof (induction es arbitrary: i bs rs st)
  case Nil
  then show ?case by simp
next
  case (Cons p es)
  obtain k e where p: "p = (k, e)" by (cases p)
  from Cons.prems have "old_kept db0 B (await_at env ''checkLink'' i st)"
    by (rule old_kept_await)
  with Cons.prems show ?case
    unfolding p by (simp add: Let_def Cons.IH)
qed

lemma old_kept_map_entry:
  assumes "old_kept db0 B st" and "\<And>d. oid (f d) = oid d"
  shows "old_kept db0 B (st\<lparr>linkDatabase := AList.map_entry k f (linkDatabase st)\<rparr>)"
  using assms unfolding old_kept_def
  by (auto dest!: set_map_entry)

lemma old_kept_refresh_loop:
  "old_kept db0 B st \<Longrightarrow> old_kept db0 B (refresh_loop env i es st)"
proof (induction es arbitrary: i st)
  case Nil
  then show ?case by simp
next
  case (Cons p es)
  obtain k e where p: "p = (k, e)" by (cases p)
  let ?st1 = "await_at env ''convertToStreamLink'' i st"
  from Cons.prems have a: "old_kept db0 B ?st1"
    by (rule old_kept_await)
  have b: "old_kept db0 B (?st1\<lparr>linkDatabase := AList.map_entry k
             (\<lambda>d. d\<lparr>streamUrl := u, lastRefreshed := t\<rparr>) (linkDatabase ?st1)\<rparr>)" for u t
    by (rule old_kept_map_entry [OF a]) simp
  show ?case
    unfolding p using Cons.prems a b by (simp add: Let_def Cons.IH)
qed

lemma old_kept_updateLinksFile:
  "old_kept db0 B st \<Longrightarrow> old_kept db0 B (snd (updateLinksFile env st))"
proof -
  assume a: "old_kept db0 B st"
  let ?st2 = "await_at env ''createOrUpdateFileContents'' 0 (await_at env ''getContent'' 0 st)"
  from a have b: "old_kept db0 B ?st2"
    by (intro old_kept_await)
  then have "old_kept db0 B (?st2\<lparr>links_json := x\<rparr>)" for x
    by (simp add: old_kept_def)
  with b show ?thesis
    by (simp add: updateLinksFile_def Let_def split: outcome.splits)
qed

lemma old_kept_delete_broken:
  assumes "old_kept db0 {} st"
  shows "old_kept db0 (bl_id ` set bs) (st\<lparr>linkDatabase := delete_broken bs (linkDatabase st)\<rparr>)"
  using assms unfolding old_kept_def
  by (auto dest!: set_delete_broken)

lemma old_kept_start:
  assumes "well_formed st"
  shows "old_kept (linkDatabase st) {} (st\<lparr>isRefreshing := True\<rparr>)"
  using assms unfolding old_kept_def well_formed_def oids_def
  by (auto simp: list_all_iff) force+

lemma checkAllLinks_ids:
  "bl_id ` set (fst (fst (checkAllLinks env st))) = set (broken_ids env 0 (linkDatabase st))"
proof -
  have "map bl_id (fst (fst (checkAllLinks env st))) = broken_ids env 0 (linkDatabase st)"
    by (simp add: checkAllLinks_def checkAllLinks_loop_ids)
  then show ?thesis
    by (metis set_map)
qed

lemma refreshAllLinks_unfold:
  assumes "\<not> isRefreshing st"
  shows "refreshAllLinks env st =
     (let st1 = st\<lparr>isRefreshing := True\<rparr>;
          brokenLinks = fst (fst (checkAllLinks env st1));
          st2 = snd (checkAllLinks env st1);
          st3 = await_at env ''checkAllLinks'' 0 st2;
          st4 = (if length brokenLinks > 0
                 then let st3a = await_at env ''sendBrokenLinksLog'' 0 st3
                      in st3a\<lparr>linkDatabase := delete_broken brokenLinks (linkDatabase st3a)\<rparr>
                 else st3);
          st5 = refresh_loop env 0 (linkDatabase st4) st4;
          st6 = snd (updateLinksFile env st5);
          st7 = await_at env ''updateLinksFile'' 0 st6;
          st8 = await_at env ''generateRefreshLog'' 0 st7
      in st8\<lparr>isRefreshing := False\<rparr>)"
  using assms by (simp add: refreshAllLinks_def Let_def case_prod_beta)

lemma old_kept_refreshAllLinks:
  assumes run: "\<not> isRefreshing st" and wf: "well_formed st"
  shows "old_kept (linkDatabase st) (set (broken_ids env 0 (linkDatabase st)))
           (refreshAllLinks env st)"
proof -
  define db0 where "db0 = linkDatabase st"
  define st1 where "st1 = st\<lparr>isRefreshing := True\<rparr>"
  define bs where "bs = fst (fst (checkAllLinks env st1))"
  define st2 where "st2 = snd (checkAllLinks env st1)"
  define st3 where "st3 = await_at env ''checkAllLinks'' 0 st2"
  define st3a where "st3a = await_at env ''sendBrokenLinksLog'' 0 st3"
  define st4 where
    "st4 = (if length bs > 0 then st3a\<lparr>linkDatabase := delete_broken bs (linkDatabase st3a)\<rparr>
            else st3)"
  define st5 where "st5 = refresh_loop env 0 (linkDatabase st4) st4"
  define st6 where "st6 = snd (updateLinksFile env st5)"
  define st7 where "st7 = await_at env ''updateLinksFile'' 0 st6"
  define st8 where "st8 = await_at env ''generateRefreshLog'' 0 st7"
  have final: "refreshAllLinks env st = st8\<lparr>isRefreshing := False\<rparr>"
    by (simp add: refreshAllLinks_unfold [OF run] Let_def st8_def st7_def st6_def st5_def
        st4_def st3a_def st3_def st2_def bs_def st1_def)
  have ids: "bl_id ` set bs = set (broken_ids env 0 db0)"
    unfolding bs_def db0_def using checkAllLinks_ids [of env st1] by (simp add: st1_def)
  have k1: "old_kept db0 {} st1"
    unfolding db0_def st1_def using wf by (rule old_kept_start)
  have k2: "old_kept db0 {} st2"
    unfolding st2_def checkAllLinks_def using k1 by (rule old_kept_checkAllLinks_loop)
  have k3: "old_kept db0 {} st3"
    unfolding st3_def using k2 by (rule old_kept_await)
  have k3a: "old_kept db0 {} st3a"
    unfolding st3a_def using k3 by (rule old_kept_await)
  have k4: "old_kept db0 (bl_id ` set bs) st4"
  proof (cases "length bs > 0")
    case True
    then have "st4 = st3a\<lparr>linkDatabase := delete_broken bs (linkDatabase st3a)\<rparr>"
      by (simp add: st4_def)
    with k3a show ?thesis
      by (simp add: old_kept_delete_broken)
  next
    case False
    with k3 show ?thesis
      by (simp add: st4_def)
  qed
  have k5: "old_kept db0 (bl_id ` set bs) st5"
    unfolding st5_def using k4 by (rule old_kept_refresh_loop)
  have k6: "old_kept db0 (bl_id ` set bs) st6"
    unfolding st6_def using k5 by (rule old_kept_updateLinksFile)
  have k7: "old_kept db0 (bl_id ` set bs) st7"
    unfolding st7_def using k6 by (rule old_kept_await)
  have k8: "old_kept db0 (bl_id ` set bs) st8"
    unfolding st8_def using k7 by (rule old_kept_await)
  then have "old_kept db0 (bl_id ` set bs) (st8\<lparr>isRefreshing := False\<rparr>)"
    by (simp add: old_kept_def)
  then show ?thesis
    unfolding final ids db0_def .
qed

text \<open>A run in which an entry is admitted while the cycle waits for its first probe: the
  registry ends with three entries, one of which the cycle has not probed.\<close>

lemma admitted_while_probing:
  "map fst
     (linkDatabase
        (refreshAllLinks
           (demo_env\<lparr>interleaved :=
              (\<lambda>site i. if site = ''checkLink'' \<and> i = 0 then [Timer_fired] else [])\<rparr>)
           third_pending))
     = [''mov001'', ''mov002'', ''mov003'']"
  by code_simp

section \<open>The re-resolution loop\<close>

text \<open>The timer callback, when it runs during a cycle, is the step of that name. No id
  leaves the registry while the loop runs. When no other handler runs while the loop waits,
  the loop makes of every entry what the claim wants.\<close>

lemma refreshTimer_fired_while_refreshing:
  "isRefreshing st \<Longrightarrow> refreshTimer_fired env st = step Timer_fired st"
  by (simp add: refreshTimer_fired_def refreshAllLinks_def admit_pending_def Let_def)

lemma keys_admit:
  "fst ` set db \<subseteq>
     fst ` set (foldl (\<lambda>db upload. AList.update (fst upload) (snd upload) db) db uploads)"
proof (induction uploads arbitrary: db)
  case Nil
  show ?case by simp
next
  case (Cons u uploads)
  have "fst ` set db \<subseteq> fst ` set (AList.update (fst u) (snd u) db)"
    by (auto simp: AList.dom_update)
  also note Cons.IH [of "AList.update (fst u) (snd u) db"]
  finally show ?case by simp
qed

lemma keys_step: "fst ` set (linkDatabase st) \<subseteq> fst ` set (linkDatabase (step ev st))"
proof (cases ev)
  case (Upload_pushed d)
  then show ?thesis by simp
next
  case Upload_scheduled
  then show ?thesis by (simp add: scheduleBatchUpload_def)
next
  case Timer_fired
  then show ?thesis
    using keys_admit [of "linkDatabase st" "pendingUploads st"]
    by (simp add: admit_pending_def Let_def)
qed

lemma keys_await:
  "fst ` set (linkDatabase st) \<subseteq> fst ` set (linkDatabase (await_at env site i st))"
proof -
  have "fst ` set (linkDatabase st) \<subseteq> fst ` set (linkDatabase (fold step evs st))" for evs
  proof (induction evs arbitrary: st)
    case Nil
    show ?case by simp
  next
    case (Cons ev evs)
    from keys_step [of st ev] Cons.IH [of "step ev st"] show ?case by auto
  qed
  then show ?thesis by (simp add: await_at_def)
qed

lemma keys_map_entry: "map fst (AList.map_entry k f db) = map fst db"
  by (induction db) auto

lemma keys_refresh_loop:
  "fst ` set (linkDatabase st) \<subseteq> fst ` set (linkDatabase (refresh_loop env i es st))"
proof (induction es arbitrary: i st)
  case Nil
  show ?case by simp
next
  case (Cons p es)
  obtain k e where p: "p = (k, e)" by (cases p)
  let ?st1 = "await_at env ''convertToStreamLink'' i st"
  have a: "fst ` set (linkDatabase st) \<subseteq> fst ` set (linkDatabase ?st1)"
    by (rule keys_await)
  have b: "fst ` set (linkDatabase ?st1)
             \<subseteq> fst ` set (linkDatabase (refresh_loop env (Suc i) es ?st1))"
    by (rule Cons.IH)
  have c: "fst ` set (linkDatabase ?st1)
             \<subseteq> fst ` set (linkDatabase (refresh_loop env (Suc i) es
                   (?st1\<lparr>linkDatabase := AList.map_entry k f (linkDatabase ?st1)\<rparr>)))" for f
    using Cons.IH [where i = "Suc i"
        and st = "?st1\<lparr>linkDatabase := AList.map_entry k f (linkDatabase ?st1)\<rparr>"]
    by (simp add: keys_map_entry flip: set_map)
  have d: "fst ` set (linkDatabase st)
             \<subseteq> fst ` set (linkDatabase (refresh_loop env (Suc i) es st))"
    by (rule Cons.IH)
  show ?case
    unfolding p using a b c d by (simp add: Let_def) blast
qed

lemma map_entry_append:
  "k \<notin> fst ` set pre \<Longrightarrow> AList.map_entry k f (pre @ (k, v) # rest) = pre @ (k, f v) # rest"
  by (induction pre) auto

lemma refresh_loop_undisturbed_append:
  assumes quiet: "\<And>j. interleaved env ''convertToStreamLink'' j = []"
  shows "distinct (map fst (pre @ es)) \<Longrightarrow> linkDatabase st = pre @ es \<Longrightarrow>
     refresh_loop env i es st = st\<lparr>linkDatabase := pre @ refreshed_list env i es\<rparr>"
proof (induction es arbitrary: i pre st)
  case Nil
  then show ?case by simp
next
  case (Cons p es)
  obtain k e where p: "p = (k, e)" by (cases p)
  from Cons.prems have fresh: "k \<notin> fst ` set pre"
    by (auto simp: p)
  have d: "distinct (map fst ((pre @ [(k, v)]) @ es))" for v
    using Cons.prems by (auto simp: p)
  have aw: "await_at env ''convertToStreamLink'' i st = st"
    by (simp add: await_at_def quiet)
  have step: "refresh_loop env (Suc i) es (st\<lparr>linkDatabase := pre @ (k, v) # es\<rparr>)
                = st\<lparr>linkDatabase := pre @ (k, v) # refreshed_list env (Suc i) es\<rparr>" for v
    using Cons.IH [OF d, where st = "st\<lparr>linkDatabase := pre @ (k, v) # es\<rparr>" and i = "Suc i"]
    by simp
  have same: "st = st\<lparr>linkDatabase := pre @ (k, e) # es\<rparr>"
    using Cons.prems(2) by (simp add: p)
  show ?case
  proof (cases "originalUrl e \<noteq> [] \<and> sd_isValid (resolved env i e)")
    case True
    then show ?thesis
      unfolding p using Cons.prems(2)
      by (simp add: Let_def aw refreshed_def resolved_def [symmetric] p map_entry_append [OF fresh] step)
  next
    case False
    have "refresh_loop env i ((k, e) # es) st = refresh_loop env (Suc i) es st"
      using False by (auto simp: Let_def aw resolved_def)
    also have "\<dots> = refresh_loop env (Suc i) es (st\<lparr>linkDatabase := pre @ (k, e) # es\<rparr>)"
      using same by simp
    also have "\<dots> = st\<lparr>linkDatabase := pre @ (k, e) # refreshed_list env (Suc i) es\<rparr>"
      by (rule step)
    finally have "refresh_loop env i ((k, e) # es) st
                    = st\<lparr>linkDatabase := pre @ (k, e) # refreshed_list env (Suc i) es\<rparr>" .
    moreover have "refreshed env i e = e"
      using False by (auto simp: refreshed_def)
    ultimately show ?thesis
      by (simp add: p del: refresh_loop.simps)
  qed
qed

lemma refresh_loop_undisturbed:
  assumes "\<And>j. interleaved env ''convertToStreamLink'' j = []"
    and "distinct (map fst (linkDatabase st))"
  shows "linkDatabase (refresh_loop env 0 (linkDatabase st) st)
           = refreshed_list env 0 (linkDatabase st)"
  using refresh_loop_undisturbed_append [of env "[]" "linkDatabase st" st 0, OF assms(1)] assms(2)
  by simp

lemma refreshed_list_nth:
  "j < length es \<Longrightarrow>
     refreshed_list env i es ! j = (fst (es ! j), refreshed env (i + j) (snd (es ! j)))"
proof (induction es arbitrary: i j)
  case Nil
  then show ?case by simp
next
  case (Cons p es)
  obtain k e where p: "p = (k, e)" by (cases p)
  show ?case
  proof (cases j)
    case 0
    then show ?thesis by (simp add: p)
  next
    case (Suc j')
    with Cons.prems have "j' < length es" by simp
    from Cons.IH [OF this, where i = "i + 1"] show ?thesis by (simp add: p Suc)
  qed
qed

section \<open>Every reachable state is well formed\<close>

lemma well_formed_initial: "well_formed initial_state"
  by (simp add: well_formed_def initial_state_def oids_def)

lemma oids_append: "oids (xs @ ys) = oids xs @ oids ys"
  by (simp add: oids_def)

lemma oids_Cons: "oids (p # ps) = oid (snd p) # oids ps"
  by (simp add: oids_def)

lemma well_formed_iff:
  "well_formed st \<longleftrightarrow>
     distinct (oids (linkDatabase st)) \<and> distinct (oids (pendingUploads st))
     \<and> set (oids (linkDatabase st)) \<inter> set (oids (pendingUploads st)) = {}
     \<and> (\<forall>r \<in> set (oids (linkDatabase st)) \<union> set (oids (pendingUploads st)). r < next_oid st)"
  by (auto simp: well_formed_def oids_append list_all_iff)

lemma well_formed_replace:
  assumes "well_formed st" and "distinct (oids db)"
    and "set (oids db) \<subseteq> set (oids (linkDatabase st))"
  shows "well_formed (st\<lparr>linkDatabase := db\<rparr>)"
  using assms unfolding well_formed_iff by auto

lemma oids_update:
  "distinct (oids db) \<Longrightarrow> oid v \<notin> set (oids db) \<Longrightarrow>
     distinct (oids (AList.update k v db)) \<and>
     set (oids (AList.update k v db)) \<subseteq> insert (oid v) (set (oids db))"
  unfolding oids_def by (induction db) auto

lemma oids_admit:
  "distinct (oids db) \<Longrightarrow> distinct (oids uploads) \<Longrightarrow>
   set (oids db) \<inter> set (oids uploads) = {} \<Longrightarrow>
     distinct (oids (foldl (\<lambda>db upload. AList.update (fst upload) (snd upload) db) db uploads)) \<and>
     set (oids (foldl (\<lambda>db upload. AList.update (fst upload) (snd upload) db) db uploads))
       \<subseteq> set (oids db) \<union> set (oids uploads)"
proof (induction uploads arbitrary: db)
  case Nil
  then show ?case by simp
next
  case (Cons u uploads)
  let ?db1 = "AList.update (fst u) (snd u) db"
  from Cons.prems have f: "oid (snd u) \<notin> set (oids db)"
    and r: "distinct (oids uploads)" "oid (snd u) \<notin> set (oids uploads)"
    "set (oids db) \<inter> set (oids uploads) = {}"
    by (auto simp: oids_Cons)
  from oids_update [OF Cons.prems(1) f, of "fst u"]
  have d1: "distinct (oids ?db1)" and s1: "set (oids ?db1) \<subseteq> insert (oid (snd u)) (set (oids db))"
    by simp_all
  from s1 r(2) r(3) have i1: "set (oids ?db1) \<inter> set (oids uploads) = {}"
    by blast
  from Cons.IH [OF d1 r(1) i1] s1 show ?case
    by (auto simp: oids_Cons)
qed

lemma well_formed_admit_pending:
  assumes "well_formed st"
  shows "well_formed (admit_pending st)"
proof -
  from assms have d: "distinct (oids (linkDatabase st))" "distinct (oids (pendingUploads st))"
    "set (oids (linkDatabase st)) \<inter> set (oids (pendingUploads st)) = {}"
    and b: "\<forall>r \<in> set (oids (linkDatabase st)) \<union> set (oids (pendingUploads st)). r < next_oid st"
    by (simp_all add: well_formed_iff)
  let ?db = "foldl (\<lambda>db upload. AList.update (fst upload) (snd upload) db)
              (linkDatabase st) (pendingUploads st)"
  from oids_admit [OF d] have D: "distinct (oids ?db)"
    and S: "set (oids ?db) \<subseteq> set (oids (linkDatabase st)) \<union> set (oids (pendingUploads st))"
    by simp_all
  from S b have B: "\<forall>r \<in> set (oids ?db). r < next_oid st"
    by blast
  have nil: "oids [] = []"
    by (simp add: oids_def)
  from D B show ?thesis
    unfolding well_formed_iff admit_pending_def Let_def by (simp add: nil)
qed

lemma well_formed_step: "well_formed st \<Longrightarrow> well_formed (step ev st)"
proof (cases ev)
  case (Upload_pushed d)
  assume "well_formed st"
  then show ?thesis
    unfolding Upload_pushed well_formed_iff
    by (auto simp: oids_append oids_Cons oids_def less_Suc_eq)
next
  case Upload_scheduled
  assume "well_formed st"
  then show ?thesis
    unfolding Upload_scheduled by (simp add: well_formed_def scheduleBatchUpload_def)
next
  case Timer_fired
  assume "well_formed st"
  then show ?thesis
    unfolding Timer_fired by (simp add: well_formed_admit_pending)
qed

lemma well_formed_await: "well_formed st \<Longrightarrow> well_formed (await_at env site i st)"
proof -
  have "well_formed st \<Longrightarrow> well_formed (fold step evs st)" for evs
    by (induction evs arbitrary: st) (simp_all add: well_formed_step)
  then show "well_formed st \<Longrightarrow> well_formed (await_at env site i st)"
    by (simp add: await_at_def)
qed

lemma well_formed_checkAllLinks_loop:
  "well_formed st \<Longrightarrow> well_formed (snd (checkAllLinks_loop env i es ((bs, rs), st)))"
proof (induction es arbitrary: i bs rs st)
  case Nil
  then show ?case by simp
next
  case (Cons p es)
  obtain k e where p: "p = (k, e)" by (cases p)
  from Cons.prems have "well_formed (await_at env ''checkLink'' i st)"
    by (rule well_formed_await)
  with Cons.prems show ?case
    unfolding p by (simp add: Let_def Cons.IH)
qed

lemma oids_map_entry: "(\<And>d. oid (f d) = oid d) \<Longrightarrow> oids (AList.map_entry k f db) = oids db"
  unfolding oids_def by (induction db) auto

lemma well_formed_refresh_loop:
  "well_formed st \<Longrightarrow> well_formed (refresh_loop env i es st)"
proof (induction es arbitrary: i st)
  case Nil
  then show ?case by simp
next
  case (Cons p es)
  obtain k e where p: "p = (k, e)" by (cases p)
  let ?st1 = "await_at env ''convertToStreamLink'' i st"
  from Cons.prems have a: "well_formed ?st1"
    by (rule well_formed_await)
  have b: "well_formed (?st1\<lparr>linkDatabase := AList.map_entry k
             (\<lambda>d. d\<lparr>streamUrl := u, lastRefreshed := t\<rparr>) (linkDatabase ?st1)\<rparr>)" for u t
    using a by (simp add: well_formed_iff oids_map_entry)
  show ?case
    unfolding p using Cons.prems a b by (simp add: Let_def Cons.IH)
qed

lemma well_formed_updateLinksFile:
  "well_formed st \<Longrightarrow> well_formed (snd (updateLinksFile env st))"
proof -
  assume a: "well_formed st"
  let ?st2 = "await_at env ''createOrUpdateFileContents'' 0 (await_at env ''getContent'' 0 st)"
  from a have b: "well_formed ?st2"
    by (intro well_formed_await)
  then have "well_formed (?st2\<lparr>links_json := x\<rparr>)" for x
    by (simp add: well_formed_def)
  with b show ?thesis
    by (simp add: updateLinksFile_def Let_def split: outcome.splits)
qed

lemma oids_delete_broken:
  "distinct (oids db) \<Longrightarrow>
     distinct (oids (delete_broken bs db)) \<and> set (oids (delete_broken bs db)) \<subseteq> set (oids db)"
  unfolding delete_broken_def
proof (induction bs arbitrary: db)
  case Nil
  then show ?case by simp
next
  case (Cons b bs)
  have d: "distinct (oids (AList.delete (bl_id b) db))"
    and s: "set (oids (AList.delete (bl_id b) db)) \<subseteq> set (oids db)"
    using Cons.prems by (auto simp: oids_def AList.delete_eq distinct_map_filter)
  from Cons.IH [OF d] s show ?case
    by auto
qed

lemma well_formed_refreshAllLinks:
  assumes wf: "well_formed st"
  shows "well_formed (refreshAllLinks env st)"
proof (cases "isRefreshing st")
  case True
  with wf show ?thesis by (simp add: refreshAllLinks_def)
next
  case run: False
  define st1 where "st1 = st\<lparr>isRefreshing := True\<rparr>"
  define bs where "bs = fst (fst (checkAllLinks env st1))"
  define st2 where "st2 = snd (checkAllLinks env st1)"
  define st3 where "st3 = await_at env ''checkAllLinks'' 0 st2"
  define st3a where "st3a = await_at env ''sendBrokenLinksLog'' 0 st3"
  define st4 where
    "st4 = (if length bs > 0 then st3a\<lparr>linkDatabase := delete_broken bs (linkDatabase st3a)\<rparr>
            else st3)"
  define st5 where "st5 = refresh_loop env 0 (linkDatabase st4) st4"
  define st6 where "st6 = snd (updateLinksFile env st5)"
  define st7 where "st7 = await_at env ''updateLinksFile'' 0 st6"
  define st8 where "st8 = await_at env ''generateRefreshLog'' 0 st7"
  have final: "refreshAllLinks env st = st8\<lparr>isRefreshing := False\<rparr>"
    by (simp add: refreshAllLinks_unfold [OF run] Let_def st8_def st7_def st6_def st5_def
        st4_def st3a_def st3_def st2_def bs_def st1_def)
  have w1: "well_formed st1"
    using wf by (simp add: st1_def well_formed_def)
  have w2: "well_formed st2"
    unfolding st2_def checkAllLinks_def using w1 by (rule well_formed_checkAllLinks_loop)
  have w3: "well_formed st3"
    unfolding st3_def using w2 by (rule well_formed_await)
  have w3a: "well_formed st3a"
    unfolding st3a_def using w3 by (rule well_formed_await)
  have w4: "well_formed st4"
  proof (cases "length bs > 0")
    case True
    from w3a have "distinct (oids (linkDatabase st3a))"
      by (simp add: well_formed_iff)
    from oids_delete_broken [OF this, of bs] w3a
    have "well_formed (st3a\<lparr>linkDatabase := delete_broken bs (linkDatabase st3a)\<rparr>)"
      by (intro well_formed_replace) simp_all
    with True show ?thesis by (simp add: st4_def)
  next
    case False
    with w3 show ?thesis by (simp add: st4_def)
  qed
  have w5: "well_formed st5"
    unfolding st5_def using w4 by (rule well_formed_refresh_loop)
  have w6: "well_formed st6"
    unfolding st6_def using w5 by (rule well_formed_updateLinksFile)
  have w7: "well_formed st7"
    unfolding st7_def using w6 by (rule well_formed_await)
  have w8: "well_formed st8"
    unfolding st8_def using w7 by (rule well_formed_await)
  then show ?thesis
    unfolding final by (simp add: well_formed_def)
qed

lemma well_formed_refreshTimer_fired:
  "well_formed st \<Longrightarrow> well_formed (refreshTimer_fired env st)"
  by (simp add: refreshTimer_fired_def well_formed_refreshAllLinks well_formed_admit_pending)

lemma well_formed_upload_loop:
  "well_formed st \<Longrightarrow> well_formed (fst (upload_loop env i urls (st, results)))"
proof (induction urls arbitrary: i st results)
  case Nil
  then show ?case by simp
next
  case (Cons url urls)
  have push: "well_formed (st\<lparr>pendingUploads := pendingUploads st @ [(k, d)],
                              next_oid := Suc (next_oid st)\<rparr>)"
    if "oid d = next_oid st" for k d
    using Cons.prems that unfolding well_formed_iff
    by (auto simp: oids_append oids_Cons oids_def less_Suc_eq)
  show ?case
    by (simp add: Let_def Cons.IH push)
qed

lemma well_formed_api_upload:
  assumes "well_formed st"
  shows "well_formed (snd (api_upload env req st))"
proof (cases "password req \<noteq> Some (API_PASSWORD (CONFIG env))")
  case True
  with assms show ?thesis by (simp add: api_upload_def)
next
  case False
  show ?thesis
  proof (cases "links req")
    case None
    with False assms show ?thesis by (simp add: api_upload_def)
  next
    case (Some urls)
    have "well_formed (fst (upload_loop env 0 urls (st, [])))"
      using assms by (rule well_formed_upload_loop)
    then have "well_formed (scheduleBatchUpload (fst (upload_loop env 0 urls (st, []))))"
      by (simp add: scheduleBatchUpload_def well_formed_def)
    with False Some show ?thesis
      by (simp add: api_upload_def Let_def case_prod_beta)
  qed
qed

section \<open>The upload loop\<close>

lemma linkDatabase_upload_loop:
  "linkDatabase (fst (upload_loop env i urls (st, results))) = linkDatabase st"
  by (induction urls arbitrary: i st results) (simp_all add: Let_def)

lemma linkDatabase_api_upload:
  "linkDatabase (snd (api_upload env req st)) = linkDatabase st"
proof (cases "password req \<noteq> Some (API_PASSWORD (CONFIG env))")
  case True
  then show ?thesis by (simp add: api_upload_def)
next
  case False
  show ?thesis
  proof (cases "links req")
    case None
    with False show ?thesis by (simp add: api_upload_def)
  next
    case (Some urls)
    have "linkDatabase (fst (upload_loop env 0 urls (st, []))) = linkDatabase st"
      by (rule linkDatabase_upload_loop)
    with False Some show ?thesis
      by (simp add: api_upload_def scheduleBatchUpload_def Let_def case_prod_beta)
  qed
qed

lemma generateLinkId_pendingUploads:
  "generateLinkId type (st\<lparr>pendingUploads := ps, next_oid := n\<rparr>) = generateLinkId type st"
  by (simp add: generateLinkId_def)

lemma upload_loop_linkIds:
  "map u_linkId (snd (upload_loop env i urls (st, results))) =
     map u_linkId results @ replicate (length urls) (generateLinkId ''mov'' st)"
proof (induction urls arbitrary: i st results)
  case Nil
  show ?case by simp
next
  case (Cons url urls)
  show ?case
    by (simp add: Let_def Cons.IH generateLinkId_pendingUploads replicate_app_Cons_same)
qed

section \<open>The codec when the suffix has three characters\<close>

lemma unbase64_b64_digit: "n < 64 \<Longrightarrow> unbase64 (b64_digit n) = Some n"
  by (auto simp: unbase64_def b64_digit_def Let_def)

lemma b64_digit_not_pad: "n < 64 \<Longrightarrow> b64_digit n \<noteq> CHR ''=''"
proof
  assume "n < 64" and "b64_digit n = CHR ''=''"
  then have "unbase64 (CHR ''='') = Some n"
    using unbase64_b64_digit by metis
  then show False
    by (simp add: unbase64_def)
qed

lemma sextets_of_bound:
  "\<forall>b \<in> set bs. b < 256 \<Longrightarrow> \<forall>s \<in> set (sextets_of bs). s < 64"
  by (induction bs rule: sextets_of.induct) auto

lemma filter_toString_base64:
  "\<forall>b \<in> set bs. b < 256 \<Longrightarrow>
     filter (\<lambda>c. c \<noteq> CHR ''='') (Buffer_toString_base64 bs) = map b64_digit (sextets_of bs)"
proof (induction bs rule: sextets_of.induct)
  case 1
  show ?case by simp
next
  case (2 a)
  then have "a div 4 < 64" "(a mod 4) * 16 < 64" by auto
  then show ?case by (simp add: b64_digit_not_pad)
next
  case (3 a b)
  then have "a div 4 < 64" "(a mod 4) * 16 + b div 16 < 64" "(b mod 16) * 4 < 64" by auto
  then show ?case by (simp add: b64_digit_not_pad)
next
  case (4 a b c rest)
  then have "a div 4 < 64" "(a mod 4) * 16 + b div 16 < 64" "(b mod 16) * 4 + c div 64 < 64"
    "c mod 64 < 64" by auto
  with 4 show ?case by (simp add: b64_digit_not_pad)
qed

lemma b64_bytes_sextets_of:
  "\<forall>b \<in> set bs. b < 256 \<Longrightarrow> b64_bytes (sextets_of bs) = bs"
proof (induction bs rule: sextets_of.induct)
  case 1
  show ?case by simp
next
  case (2 a)
  show ?case by simp
next
  case (3 a b)
  then have "b < 256" by simp
  then show ?case by auto
next
  case (4 a b c rest)
  then have "b < 256" "c < 256" by simp_all
  with 4 show ?case by auto
qed

lemma map_filter_unbase64:
  "\<forall>s \<in> set ss. s < 64 \<Longrightarrow> List.map_filter unbase64 (map b64_digit ss) = ss"
  by (induction ss) (simp_all add: List.map_filter_simps unbase64_b64_digit)

lemma Buffer_from_base64_digits:
  assumes "\<forall>s \<in> set ss. s < 64"
  shows "Buffer_from_base64 (map b64_digit ss @ ''=='') = b64_bytes ss"
proof -
  have "takeWhile (\<lambda>c. c \<noteq> CHR ''='') (map b64_digit ss @ ''=='')
          = map b64_digit ss @ takeWhile (\<lambda>c. c \<noteq> CHR ''='') ''==''"
    using assms by (intro takeWhile_append2) (auto simp: b64_digit_not_pad)
  then have "takeWhile (\<lambda>c. c \<noteq> CHR ''='') (map b64_digit ss @ ''=='') = map b64_digit ss"
    by simp
  then show ?thesis
    using assms by (simp add: Buffer_from_base64_def map_filter_unbase64)
qed

lemma Buffer_from_ascii:
  "\<forall>c \<in> set s. (of_char c :: nat) < 128 \<Longrightarrow> Buffer_from s = map of_char s"
  by (induction s) (simp_all add: Buffer_from_def utf8_of_char_def)

lemma Buffer_toString_ascii:
  "\<forall>b \<in> set bs. b < 128 \<Longrightarrow> Buffer_toString bs = map int bs"
  by (induction bs) simp_all

lemma slice_0_neg_append: "length r = n \<Longrightarrow> slice_0_neg n (x @ r) = x"
  by (simp add: slice_0_neg_def)

lemma decode_encode_three_characters:
  assumes ascii: "\<forall>c \<in> set linkId. (of_char c :: nat) < 128"
    and three: "length (substring 2 5 rnd36) = 3"
  shows "decode (encode rnd36 linkId) = Some (codepoints linkId)"
proof -
  let ?bs = "map of_char linkId :: nat list"
  have bytes: "\<forall>b \<in> set ?bs. b < 256"
    using ascii by auto
  have enc: "encode rnd36 linkId = map b64_digit (sextets_of ?bs) @ substring 2 5 rnd36"
    using bytes by (simp add: encode_def Let_def Buffer_from_ascii [OF ascii] filter_toString_base64)
  have "slice_0_neg 3 (encode rnd36 linkId) = map b64_digit (sextets_of ?bs)"
    unfolding enc using three by (rule slice_0_neg_append)
  then have "decode (encode rnd36 linkId) = Some (Buffer_toString (b64_bytes (sextets_of ?bs)))"
    using sextets_of_bound [OF bytes] by (simp add: decode_def Let_def Buffer_from_base64_digits)
  also have "b64_bytes (sextets_of ?bs) = ?bs"
    using bytes by (rule b64_bytes_sextets_of)
  also have "Buffer_toString ?bs = codepoints linkId"
    using ascii by (simp add: Buffer_toString_ascii codepoints_def of_nat_of_char)
  finally show ?thesis .
qed

lemma substring_2_5_length: "5 \<le> length rnd36 \<Longrightarrow> length (substring 2 5 rnd36) = 3"
  by (simp add: substring_def)

section \<open>The claims\<close>

text \<open>
  Claim C1. After one run of the refresh cycle, every entry that remains in the registry
  either had a successful health probe in this cycle (it was in the registry when the cycle
  began, it had a stream URL, and the probe made for it was answered with status 200), or
  was absent from the registry when the cycle began; every entry whose probe failed or that
  had no stream URL when the cycle began is gone. An entry is the object, told apart by its
  \<open>oid\<close>: an entry admitted while the cycle waits may carry the id of an older one. The
  cycle is one run of \<^const>\<open>refreshAllLinks\<close> from a state in which no cycle is running,
  whatever the other handlers do at its awaits.
\<close>

theorem refreshAllLinks_keeps_only_probed:
  assumes "\<not> isRefreshing st" and "well_formed st"
  shows "(\<forall>entry \<in> set (linkDatabase (refreshAllLinks env st)).
            (\<exists>i < length (linkDatabase st).
               fst (linkDatabase st ! i) = fst entry
               \<and> oid (snd (linkDatabase st ! i)) = oid (snd entry)
               \<and> probed_active env i (snd (linkDatabase st ! i)))
            \<or> oid (snd entry) \<notin> set (oids (linkDatabase st)))
         \<and> (\<forall>i < length (linkDatabase st).
              \<not> probed_active env i (snd (linkDatabase st ! i)) \<longrightarrow>
              oid (snd (linkDatabase st ! i)) \<notin> set (oids (linkDatabase (refreshAllLinks env st))))"
proof -
  let ?db = "linkDatabase st"
  let ?db' = "linkDatabase (refreshAllLinks env st)"
  note K = old_kept_refreshAllLinks [OF assms, of env, unfolded old_kept_def]
  have old: "k \<notin> set (broken_ids env 0 ?db) \<and> (\<exists>e0. (k, e0) \<in> set ?db \<and> oid e0 = oid e)"
    if "(k, e) \<in> set ?db'" "oid e \<in> set (oids ?db)" for k e
    using K that by blast
  have a: "(\<exists>i < length ?db. fst (?db ! i) = k \<and> oid (snd (?db ! i)) = oid e
              \<and> probed_active env i (snd (?db ! i)))
           \<or> oid e \<notin> set (oids ?db)"
    if "(k, e) \<in> set ?db'" for k e
  proof (cases "oid e \<in> set (oids ?db)")
    case False
    then show ?thesis by simp
  next
    case True
    from old [OF that True] obtain e0 where nb: "k \<notin> set (broken_ids env 0 ?db)"
      and e0: "(k, e0) \<in> set ?db" "oid e0 = oid e"
      by blast
    from e0(1) obtain i where i: "i < length ?db" "?db ! i = (k, e0)"
      by (auto simp: in_set_conv_nth)
    from nb have all: "\<forall>j < length ?db. fst (?db ! j) = k \<longrightarrow> probed_active env j (snd (?db ! j))"
      by (auto simp: broken_ids_iff)
    from i have "fst (?db ! i) = k" "snd (?db ! i) = e0"
      by simp_all
    with all i(1) e0(2) show ?thesis by blast
  qed
  have b: "oid (snd (?db ! i)) \<notin> set (oids ?db')"
    if i: "i < length ?db" and bad: "\<not> probed_active env i (snd (?db ! i))" for i
  proof
    assume "oid (snd (?db ! i)) \<in> set (oids ?db')"
    then obtain k e where ke: "(k, e) \<in> set ?db'" "oid e = oid (snd (?db ! i))"
      by (auto simp: oids_def)
    from i have "oid e \<in> set (oids ?db)"
      by (auto simp: ke(2) oids_def)
    from old [OF ke(1) this] obtain e0 where nb: "k \<notin> set (broken_ids env 0 ?db)"
      and e0: "(k, e0) \<in> set ?db" "oid e0 = oid e"
      by blast
    from e0(1) obtain j where j: "j < length ?db" "?db ! j = (k, e0)"
      by (auto simp: in_set_conv_nth)
    have d: "distinct (oids ?db)"
      using assms(2) by (simp add: well_formed_def oids_def)
    have len: "length (oids ?db) = length ?db"
      by (simp add: oids_def)
    have eq: "oids ?db ! i = oids ?db ! j"
      using i j e0(2) ke(2) by (simp add: oids_def)
    from nth_eq_iff_index_eq [OF d, of i j] i j(1) len eq have "i = j"
      by simp
    with j have "fst (?db ! i) = k" by simp
    with i bad have "k \<in> set (broken_ids env 0 ?db)"
      by (auto simp: broken_ids_iff)
    with nb show False by simp
  qed
  have a': "(\<exists>i < length ?db. fst (?db ! i) = fst entry \<and> oid (snd (?db ! i)) = oid (snd entry)
              \<and> probed_active env i (snd (?db ! i)))
           \<or> oid (snd entry) \<notin> set (oids ?db)"
    if "entry \<in> set ?db'" for entry
    using a [of "fst entry" "snd entry"] that by simp
  from a' b show ?thesis
    by blast
qed

theorem refreshAllLinks_keeps_only_probed_witness:
  "\<not> isRefreshing third_pending
   \<and> well_formed third_pending
   \<and> map fst (linkDatabase third_pending) = [''mov001'', ''mov002'']
   \<and> map fst (pendingUploads third_pending) = [''mov003'']
   \<and> map fst (linkDatabase (refreshAllLinks env_timer_in_probe third_pending))
       = [''mov001'', ''mov003'']
   \<and> probed_active env_timer_in_probe 0 (snd (linkDatabase third_pending ! 0))
   \<and> \<not> probed_active env_timer_in_probe 1 (snd (linkDatabase third_pending ! 1))
   \<and> oid (snd (linkDatabase third_pending ! 1))
       \<notin> set (oids (linkDatabase (refreshAllLinks env_timer_in_probe third_pending)))
   \<and> oid (snd (linkDatabase (refreshAllLinks env_timer_in_probe third_pending) ! 1))
       \<notin> set (oids (linkDatabase third_pending))"
proof -
  have h: "\<not> isRefreshing third_pending"
    by code_simp
  have w: "well_formed third_pending"
    by code_simp
  have keys: "map fst (linkDatabase third_pending) = [''mov001'', ''mov002'']"
    by code_simp
  have pend: "map fst (pendingUploads third_pending) = [''mov003'']"
    by code_simp
  have rest: "map fst (linkDatabase (refreshAllLinks env_timer_in_probe third_pending))
                = [''mov001'', ''mov003'']"
    by code_simp
  have p0: "probed_active env_timer_in_probe 0 (snd (linkDatabase third_pending ! 0))"
    by code_simp
  have p1: "\<not> probed_active env_timer_in_probe 1 (snd (linkDatabase third_pending ! 1))"
    by code_simp
  have len: "1 < length (linkDatabase third_pending)"
    by code_simp
  have gone: "oid (snd (linkDatabase third_pending ! 1))
                \<notin> set (oids (linkDatabase (refreshAllLinks env_timer_in_probe third_pending)))"
    using refreshAllLinks_keeps_only_probed [OF h w, of env_timer_in_probe] len p1 by blast
  have new: "oid (snd (linkDatabase (refreshAllLinks env_timer_in_probe third_pending) ! 1))
               \<notin> set (oids (linkDatabase third_pending))"
    by code_simp
  from h w keys pend rest p0 p1 gone new show ?thesis
    by (intro conjI)
qed

text \<open>
  Claim C2. In the re-resolution phase, an entry whose resolution succeeds gets the new
  \<open>streamUrl\<close> and \<open>lastRefreshed\<close>, and an entry whose resolution fails keeps its
  \<open>streamUrl\<close> and stays in the registry. The code does not always do this: after the
  resolution it writes to the entry that the registry holds under the id at that moment.
  Here the registry holds \<^verbatim>\<open>mov002\<close> for the video \<^verbatim>\<open>b\<close>, and an upload of the video \<^verbatim>\<open>c\<close>
  is pending under the id \<^verbatim>\<open>mov002\<close> as well (the id was given again after \<^verbatim>\<open>mov001\<close> was
  removed). The timer fires while the cycle waits for the resolution of \<^verbatim>\<open>b\<close>; the
  resolution succeeds, and its stream URL is written into the entry of \<^verbatim>\<open>c\<close>.
\<close>

theorem refresh_writes_into_admitted_entry:
  "summary (linkDatabase reused_pending)
     = [(''mov002'', ''https://youtu.be/b'', Some ''https://cdn.example/stream'', 1)]
   \<and> summary (pendingUploads reused_pending)
     = [(''mov002'', ''https://youtu.be/c'', Some ''https://cdn.example/stream'', 2)]
   \<and> sd_isValid (resolved env_timer_in_resolution 0 (snd (hd (linkDatabase reused_pending))))
   \<and> sd_streamUrl (resolved env_timer_in_resolution 0 (snd (hd (linkDatabase reused_pending))))
     = Some ''https://cdn.example/fresh/https://youtu.be/b''
   \<and> summary (linkDatabase (refreshAllLinks env_timer_in_resolution reused_pending))
     = [(''mov002'', ''https://youtu.be/c'',
         Some ''https://cdn.example/fresh/https://youtu.be/b'', 2)]"
  by code_simp

text \<open>
  Claim C3. \<^const>\<open>refreshAllLinks\<close> called while \<open>isRefreshing\<close> is true returns at once and
  changes nothing: the registry, the pending uploads, the timer, the flag and the published
  file are what they were. The trigger is dropped; nothing is queued.
\<close>

theorem refreshAllLinks_skips_while_refreshing:
  "isRefreshing st \<Longrightarrow> refreshAllLinks env st = st"
  by (simp add: refreshAllLinks_def)

theorem refreshAllLinks_skips_while_refreshing_witness:
  "isRefreshing (after_two_batches\<lparr>isRefreshing := True\<rparr>)
   \<and> refreshAllLinks (env_404_at 0) (after_two_batches\<lparr>isRefreshing := True\<rparr>)
       = after_two_batches\<lparr>isRefreshing := True\<rparr>"
proof -
  have h: "isRefreshing (after_two_batches\<lparr>isRefreshing := True\<rparr>)"
    by simp
  from h refreshAllLinks_skips_while_refreshing [OF h, of "env_404_at 0"] show ?thesis
    by (intro conjI)
qed

text \<open>
  Claim C4. \<open>decode (encode id)\<close> gives \<open>id\<close> back for every random suffix that \<^const>\<open>encode\<close>
  may choose, the suffix being always three characters long. The code does not do this: when
  the random number prints with fewer than three digits after the point, the suffix is
  shorter than three characters, and \<^const>\<open>decode\<close>, which always cuts three, cuts into the
  base64 text. For the draw \<^verbatim>\<open>0.5\<close>, printed \<^verbatim>\<open>0.i\<close>, the id \<^verbatim>\<open>mov001\<close> comes back as
  \<^verbatim>\<open>mov0\<close>.
\<close>

theorem decode_encode_short_suffix:
  "substring 2 5 ''0.i'' = ''i''
   \<and> encode ''0.i'' ''mov001'' = ''bW92MDAxi''
   \<and> decode (encode ''0.i'' ''mov001'') = Some (codepoints ''mov0'')"
  by code_simp

text \<open>
  Claim C5. \<^const>\<open>decode\<close> fails on a token shorter than four characters and on a token
  whose content is not base64. The code does not do this: \<^const>\<open>decode\<close> never takes its
  failure branch. A token of two characters decodes to the empty string, a token of
  characters outside the alphabet decodes to the empty string, and a token with a foreign
  character in its base64 part decodes as if the character were not there.
\<close>

theorem decode_never_fails:
  "decode ''ab'' = Some []
   \<and> decode ''!!!!4fz'' = Some []
   \<and> decode ''bW9*2MDAx4fz'' = Some (codepoints ''mov001'')
   \<and> (\<forall>token. decode token \<noteq> None)"
proof -
  have a: "decode ''ab'' = Some []"
    by code_simp
  have b: "decode ''!!!!4fz'' = Some []"
    by code_simp
  have c: "decode ''bW9*2MDAx4fz'' = Some (codepoints ''mov001'')"
    by code_simp
  have d: "\<forall>token. decode token \<noteq> None"
    by (simp add: decode_def Let_def)
  from a b c d show ?thesis
    by (intro conjI)
qed

text \<open>
  Claim C6. The ids that \<^const>\<open>generateLinkId\<close> produces are pairwise different and none is
  produced twice, also after entries were removed. The code does not do this: the next
  number is the count of the ids in the registry plus one. After \<^verbatim>\<open>mov001\<close> and \<^verbatim>\<open>mov002\<close>
  were allocated and admitted, and a cycle removed \<^verbatim>\<open>mov001\<close> (its probe was answered with
  404), the next id is \<^verbatim>\<open>mov002\<close> again, the id of the entry that is still there.
\<close>

theorem generateLinkId_reuses_id:
  "generateLinkId ''mov'' initial_state = ''mov001''
   \<and> generateLinkId ''mov'' after_first_batch = ''mov002''
   \<and> map fst (linkDatabase after_two_batches) = [''mov001'', ''mov002'']
   \<and> map fst (linkDatabase (refreshAllLinks (env_404_at 0) after_two_batches)) = [''mov002'']
   \<and> generateLinkId ''mov'' (refreshAllLinks (env_404_at 0) after_two_batches) = ''mov002''"
  by code_simp

text \<open>
  Claim C7. Three URLs uploaded in one call get three different, consecutive ids, and none
  of them is in the registry before the timer fires. The code does the second part only: the
  registry is untouched by the upload, but since \<^const>\<open>generateLinkId\<close> counts the registry
  and not the pending uploads, the three pending entries carry the same id. When the timer
  fires, the third overwrites the other two.
\<close>

theorem upload_batch_same_id:
  "map u_linkId
     (upload_results (fst (api_upload demo_env
        (upload_of [''https://youtu.be/a'', ''https://youtu.be/b'', ''https://youtu.be/c''])
        initial_state)))
     = [''mov001'', ''mov001'', ''mov001'']
   \<and> map fst
       (pendingUploads (snd (api_upload demo_env
          (upload_of [''https://youtu.be/a'', ''https://youtu.be/b'', ''https://youtu.be/c''])
          initial_state)))
       = [''mov001'', ''mov001'', ''mov001'']
   \<and> linkDatabase (snd (api_upload demo_env
          (upload_of [''https://youtu.be/a'', ''https://youtu.be/b'', ''https://youtu.be/c''])
          initial_state))
       = []
   \<and> map (\<lambda>entry. (fst entry, originalUrl (snd entry)))
       (linkDatabase (refreshTimer_fired demo_env (snd (api_upload demo_env
          (upload_of [''https://youtu.be/a'', ''https://youtu.be/b'', ''https://youtu.be/c''])
          initial_state))))
       = [(''mov001'', ''https://youtu.be/c'')]"
  by code_simp

text \<open>
  Claim C8. Every request to the status endpoint is answered with the registry size, the
  number of pending uploads, whether a cycle is running and whether a timer is armed. The
  code does not do this: the handler first calls \<^verbatim>\<open>LinkCleaner.getOldLinks()\<close>, and the
  module binds no \<^verbatim>\<open>LinkCleaner\<close> (nor the \<^verbatim>\<open>ViewTracker\<close> it names next), so every request
  ends in a \<^verbatim>\<open>ReferenceError\<close>, whatever the state.
\<close>

theorem api_status_throws:
  "api_status env helpers st = Inl (ReferenceError ''LinkCleaner'')"
  by (simp add: api_status_def module_bindings_def)

text \<open>
  Claim C9, as stated: \<^const>\<open>checkLink\<close> always returns a result, and the result is active
  exactly when the remote answers with a success status. It fails for a success status
  other than 200: the answer 204, which axios accepts as a success, gives a result that is
  not active, and no error is recorded with it.
\<close>

theorem checkLink_204_counterexample:
  "validateStatus 204
   \<and> \<not> isActive (checkLink (Resolved 204))
   \<and> hc_error (checkLink (Resolved 204)) = None"
  by (simp add: validateStatus_def checkLink_def)

text \<open>
  Claim C9, amended. \<^const>\<open>checkLink\<close> returns a result for every answer of the request,
  fulfilled or rejected. The result is active exactly when the request is fulfilled with
  status 200. A fulfilled request records its status and no error; a rejected request
  (transport failure, timeout, or a status that axios rejects) gives a result that is not
  active and records the message of the error and the status of the response, 0 when there
  was no response.
\<close>

theorem checkLink_active_iff_200:
  "isActive (checkLink reply) = (reply = Resolved 200)
   \<and> (case reply of
         Resolved status \<Rightarrow>
           hc_status (checkLink reply) = status \<and> hc_error (checkLink reply) = None
       | Rejected response msg \<Rightarrow>
           \<not> isActive (checkLink reply)
           \<and> hc_error (checkLink reply) = Some msg
           \<and> hc_status (checkLink reply) = (case response of None \<Rightarrow> 0 | Some status \<Rightarrow> status))"
  by (cases reply) (simp_all add: checkLink_def)

text \<open>
  Claim C10. \<^const>\<open>encode\<close> is not a function of the id alone: two draws give two tokens
  for \<^verbatim>\<open>mov001\<close>. So the link that the upload returns, made with one draw, ends in a token
  that is not among the keys of the file published when the timer fires, where the id is
  encoded again with another draw.
\<close>

theorem encode_depends_on_draw:
  "encode ''0.4fzyo82mvyr'' ''mov001'' = ''bW92MDAx4fz''
   \<and> encode ''0.k9x2mq71b3c'' ''mov001'' = ''bW92MDAxk9x''
   \<and> encode ''0.4fzyo82mvyr'' ''mov001'' \<noteq> encode ''0.k9x2mq71b3c'' ''mov001''
   \<and> map u_masterLink
       (upload_results (fst (api_upload demo_env (upload_of [''https://youtu.be/a''])
          initial_state)))
       = [''https://owner.github.io/repo/r/bW92MDAx4fz'']
   \<and> map_option (map fst)
       (links_json (refreshTimer_fired env_later
          (snd (api_upload demo_env (upload_of [''https://youtu.be/a'']) initial_state))))
       = Some [''bW92MDAxk9x'']"
  by code_simp

end
